theory Spec2Isabelle
  imports Complex_Main
begin

section \<open>The fractal tree engine of \<open>fractal_tree.py\<close>\<close>

text \<open>
  The development embeds the branch-generation part of class \<open>FractalTree\<close>: the methods
  \<open>plant_trunk\<close>, \<open>get_branch_color\<close>, \<open>interpolate_color\<close>, \<open>calculate_thickness\<close>,
  \<open>grow_one_level\<close>, \<open>grow_full_tree\<close> and \<open>reset_tree\<close>. Calls that only draw
  (\<open>canvas.delete\<close>, \<open>draw_branch\<close>, \<open>draw_grid\<close>, \<open>draw_guide\<close>, \<open>update_display\<close>) change
  nothing of the state below and are left out.

  Numbers. Python's \<open>int\<close> is \<open>int\<close> (or \<open>nat\<close> for the counters, which start at 0 and are
  only ever incremented). In the growth engine Python's \<open>float\<close> is idealised as \<open>real\<close>:
  rounding, overflow and NaN are not modelled, and \<open>math.cos\<close>, \<open>math.sin\<close>,
  \<open>math.radians\<close> are the real functions. The digits of an interpolated colour are
  different: they are truncated floats, and the rounding of a single operation can decide a
  digit. The colour computation is therefore also embedded in IEEE double arithmetic
  (\<open>get_branch_color_double\<close> below), and the colour itself is settled there.

  Strings are \<open>string\<close>; a \<open>char\<close> stands for a code point below 256.
\<close>

subsection \<open>Errors\<close>

text \<open>
  \<open>grow_one_level\<close> and \<open>grow_full_tree\<close> report two conditions through a message box and
  return normally: no trunk planted (\<open>EmptyTreeError\<close>) and maximum depth reached
  (\<open>MaxDepthReachedError\<close>). \<open>IndexError\<close> and \<open>ValueError\<close> are the Python exceptions that
  the colour computation can raise; they propagate to the caller.
\<close>

datatype error = EmptyTreeError | MaxDepthReachedError | IndexError | ValueError

definition is_exception :: "error option \<Rightarrow> bool" where
  "is_exception e = (e = Some IndexError \<or> e = Some ValueError)"

subsection \<open>Configuration, branches and engine state\<close>

text \<open>The entries of \<open>self.params\<close> that the engine reads.\<close>

record params =
  trunk_color :: string
  leaf_colors :: "string list"
  base_length :: real
  angle_variation :: real
  length_factor :: real
  max_depth :: int
  trunk_thickness :: real
  thickness_factor :: real
  randomness :: real
  upward_angle :: bool

text \<open>
  A branch dictionary. The keys \<open>id\<close>, \<open>end\<close> and \<open>length\<close> are written \<open>b_id\<close>, \<open>b_end\<close>
  and \<open>b_length\<close>.
\<close>

record branch =
  b_id :: nat
  parent_id :: "nat option"
  start :: "real \<times> real"
  b_end :: "real \<times> real"
  depth :: nat
  b_length :: real
  angle :: real
  thickness :: real
  color :: string

record tree =
  params :: params
  click_count :: nat
  current_depth :: nat
  branches :: "branch list"
  next_id :: nat
  tree_center :: "real \<times> real"

text \<open>The state variables as \<open>__init__\<close> sets them.\<close>

definition init :: "params \<Rightarrow> tree" where
  "init ps = \<lparr>params = ps, click_count = 0, current_depth = 0, branches = [],
     next_id = 0, tree_center = (0, 0)\<rparr>"

text \<open>The default configuration of \<open>__init__\<close>.\<close>

definition default_params :: params where
  "default_params = \<lparr>trunk_color = ''#7c2d12'',
     leaf_colors = [''#166534'', ''#22c55e'', ''#f59e0b''],
     base_length = 180, angle_variation = 35, length_factor = 0.65, max_depth = 8,
     trunk_thickness = 20, thickness_factor = 0.75, randomness = 0.1,
     upward_angle = True\<rparr>"

subsection \<open>Python primitives\<close>

text \<open>\<open>xs[i]\<close>: a negative index counts from the end, an index out of range raises.\<close>

definition py_index :: "'a list \<Rightarrow> int \<Rightarrow> error + 'a" where
  "py_index xs i =
     (if 0 \<le> i \<and> i < int (length xs) then Inr (xs ! nat i)
      else if i < 0 \<and> - int (length xs) \<le> i then Inr (xs ! nat (int (length xs) + i))
      else Inl IndexError)"

text \<open>\<open>int(x)\<close> of a float: truncation toward zero.\<close>

definition py_int :: "real \<Rightarrow> int" where
  "py_int x = (if 0 \<le> x then \<lfloor>x\<rfloor> else \<lceil>x\<rceil>)"

text \<open>\<open>s[i:j]\<close> for \<open>0 \<le> i \<le> j\<close>.\<close>

definition slice :: "string \<Rightarrow> nat \<Rightarrow> nat \<Rightarrow> string" where
  "slice s i j = take (j - i) (drop i s)"

text \<open>
  \<open>int(s, 16)\<close>: blanks around, an optional sign, an optional \<open>0x\<close> prefix, then hex digits
  with single underscores between them; anything else raises \<open>ValueError\<close>. The blanks
  that \<open>int\<close> strips are tab to carriage return, the space, and the code points 133 and
  160; the separators 28 to 31 are not among them.
\<close>

definition hex_val :: "char \<Rightarrow> nat option" where
  "hex_val c =
     (let n = (of_char c :: nat)
      in if 48 \<le> n \<and> n \<le> 57 then Some (n - 48)
         else if 97 \<le> n \<and> n \<le> 102 then Some (n - 87)
         else if 65 \<le> n \<and> n \<le> 70 then Some (n - 55)
         else None)"

definition py_isspace :: "char \<Rightarrow> bool" where
  "py_isspace c =
     (let n = (of_char c :: nat)
      in (9 \<le> n \<and> n \<le> 13) \<or> n = 32 \<or> n = 133 \<or> n = 160)"

text \<open>
  The digits after the first one: \<open>more_digits acc s\<close> reads digits, each optionally
  preceded by one underscore, and returns the value with the unread rest.
\<close>

fun more_digits :: "nat \<Rightarrow> string \<Rightarrow> (nat \<times> string) option" where
  "more_digits acc [] = Some (acc, [])"
| "more_digits acc [c] =
     (if c = CHR ''_'' then None
      else case hex_val c of
             Some v \<Rightarrow> Some (16 * acc + v, [])
           | None \<Rightarrow> Some (acc, [c]))"
| "more_digits acc (c # d # ds) =
     (if c = CHR ''_'' then
        (case hex_val d of
           Some v \<Rightarrow> more_digits (16 * acc + v) ds
         | None \<Rightarrow> None)
      else case hex_val c of
             Some v \<Rightarrow> more_digits (16 * acc + v) (d # ds)
           | None \<Rightarrow> Some (acc, c # d # ds))"

definition digits16 :: "string \<Rightarrow> (nat \<times> string) option" where
  "digits16 s =
     (case s of
        [] \<Rightarrow> None
      | c # cs \<Rightarrow> (case hex_val c of None \<Rightarrow> None | Some v \<Rightarrow> more_digits v cs))"

definition skip_prefix :: "string \<Rightarrow> string" where
  "skip_prefix s =
     (case s of
        c # x # rest \<Rightarrow>
          if c = CHR ''0'' \<and> (x = CHR ''x'' \<or> x = CHR ''X'') then
            (case rest of
               u # rest' \<Rightarrow> if u = CHR ''_'' then rest' else rest
             | [] \<Rightarrow> rest)
          else s
      | _ \<Rightarrow> s)"

definition int16 :: "string \<Rightarrow> error + int" where
  "int16 s =
     (let s1 = dropWhile py_isspace s;
          (neg, s2) = (case s1 of
                         c # cs \<Rightarrow> if c = CHR ''+'' then (False, cs)
                                   else if c = CHR ''-'' then (True, cs)
                                   else (False, s1)
                       | [] \<Rightarrow> (False, s1))
      in (case digits16 (skip_prefix s2) of
            None \<Rightarrow> Inl ValueError
          | Some (n, rest) \<Rightarrow>
              if dropWhile py_isspace rest = [] then Inr (if neg then - int n else int n)
              else Inl ValueError))"

text \<open>
  The format \<open>{r:02x}\<close>: lower-case hex digits, a minus sign for a negative number,
  zero-padded to two characters.
\<close>

definition hex_char :: "nat \<Rightarrow> char" where
  "hex_char n = char_of (if n < 10 then 48 + n else 87 + n)"

fun hex_str :: "nat \<Rightarrow> string" where
  "hex_str n = (if n < 16 then [hex_char n] else hex_str (n div 16) @ [hex_char (n mod 16)])"

definition fmt02x :: "int \<Rightarrow> string" where
  "fmt02x r =
     (if r < 0 then CHR ''-'' # hex_str (nat (- r))
      else let s = hex_str (nat r) in replicate (2 - length s) CHR ''0'' @ s)"

subsection \<open>Colour and thickness\<close>

definition interpolate_color :: "string \<Rightarrow> string \<Rightarrow> real \<Rightarrow> error + string" where
  "interpolate_color color1 color2 factor =
     (case int16 (slice color1 1 3) of Inl e \<Rightarrow> Inl e | Inr r1 \<Rightarrow>
     (case int16 (slice color1 3 5) of Inl e \<Rightarrow> Inl e | Inr g1 \<Rightarrow>
     (case int16 (slice color1 5 7) of Inl e \<Rightarrow> Inl e | Inr b1 \<Rightarrow>
     (case int16 (slice color2 1 3) of Inl e \<Rightarrow> Inl e | Inr r2 \<Rightarrow>
     (case int16 (slice color2 3 5) of Inl e \<Rightarrow> Inl e | Inr g2 \<Rightarrow>
     (case int16 (slice color2 5 7) of Inl e \<Rightarrow> Inl e | Inr b2 \<Rightarrow>
        (let r = py_int (real_of_int r1 + real_of_int (r2 - r1) * factor);
             g = py_int (real_of_int g1 + real_of_int (g2 - g1) * factor);
             b = py_int (real_of_int b1 + real_of_int (b2 - b1) * factor)
         in Inr (CHR ''#'' # fmt02x r @ fmt02x g @ fmt02x b))))))))"

text \<open>
  \<open>get_branch_color\<close>, in real arithmetic, as the growth engine calls it. The division
  \<open>depth / max_depth\<close> is only reached with \<open>0 < depth < max_depth\<close>, so it never divides by
  zero.
\<close>

definition get_branch_color :: "params \<Rightarrow> nat \<Rightarrow> error + string" where
  "get_branch_color ps d =
     (if d = 0 then Inr (trunk_color ps)
      else if max_depth ps \<le> int d then py_index (leaf_colors ps) (- 1)
      else
        (let progress = real d / real_of_int (max_depth ps);
             color_index = progress * real_of_int (int (length (leaf_colors ps)) - 1);
             idx1 = py_int color_index;
             idx2 = min (idx1 + 1) (int (length (leaf_colors ps)) - 1);
             factor = color_index - real_of_int idx1
         in (case py_index (leaf_colors ps) idx1 of Inl e \<Rightarrow> Inl e | Inr color1 \<Rightarrow>
            (case py_index (leaf_colors ps) idx2 of Inl e \<Rightarrow> Inl e | Inr color2 \<Rightarrow>
               interpolate_color color1 color2 factor))))"

definition calculate_thickness :: "params \<Rightarrow> nat \<Rightarrow> real" where
  "calculate_thickness ps d =
     (let base = trunk_thickness ps; factor = thickness_factor ps
      in max 1 (base * factor ^ d))"

subsection \<open>The colour computation in double precision\<close>

text \<open>
  \<open>double x\<close> is the IEEE-754 binary64 number nearest to \<open>x\<close>, ties going to the even
  significand: 53 significant bits, and below \<open>2 ^ - 1022\<close> the fixed spacing \<open>2 ^ - 1074\<close> of
  the subnormal numbers. Every float operation of Python returns the \<open>double\<close> of the exact
  result, and so do the division of two integers and the conversion of an integer taking
  part in a float operation. Overflow is not modelled: the numbers rounded below are
  bounded by the length of the palette and by 255.
\<close>

fun bit_length :: "nat \<Rightarrow> nat" where
  "bit_length n = (if n = 0 then 0 else Suc (bit_length (n div 2)))"

text \<open>For \<open>a > 0\<close>, the integer \<open>e\<close> with \<open>2 ^ e \<le> a < 2 ^ (e + 1)\<close>.\<close>

definition floor_log2 :: "real \<Rightarrow> int" where
  "floor_log2 a =
     (if 1 \<le> a then int (bit_length (nat \<lfloor>a\<rfloor>)) - 1
      else - int (bit_length (nat (\<lceil>1 / a\<rceil> - 1))))"

definition round_half_even :: "real \<Rightarrow> int" where
  "round_half_even y =
     (let f = \<lfloor>y\<rfloor>; r = y - real_of_int f
      in if r < 1 / 2 then f else if 1 / 2 < r then f + 1 else if even f then f else f + 1)"

definition double :: "real \<Rightarrow> real" where
  "double x =
     (if x = 0 then 0
      else
        (let a = \<bar>x\<bar>;
             q = max (floor_log2 a - 52) (- 1074);
             m = (if 0 \<le> q then real_of_int (round_half_even (a / 2 ^ nat q)) * 2 ^ nat q
                  else real_of_int (round_half_even (a * 2 ^ nat (- q))) / 2 ^ nat (- q))
         in sgn x * m))"

definition float_of_int :: "int \<Rightarrow> real" where
  "float_of_int i = double (real_of_int i)"

text \<open>
  \<open>interpolate_color\<close> and \<open>get_branch_color\<close> once more, statement by statement, with
  every float operation rounded: \<open>depth / max_depth\<close> divides two integers,
  \<open>progress * (len - 1)\<close>, \<open>color_index - idx1\<close>, \<open>(r2 - r1) * factor\<close> and \<open>r1 + ...\<close> each
  convert their integer operand and round their result.
\<close>

definition interpolate_color_double :: "string \<Rightarrow> string \<Rightarrow> real \<Rightarrow> error + string" where
  "interpolate_color_double color1 color2 factor =
     (case int16 (slice color1 1 3) of Inl e \<Rightarrow> Inl e | Inr r1 \<Rightarrow>
     (case int16 (slice color1 3 5) of Inl e \<Rightarrow> Inl e | Inr g1 \<Rightarrow>
     (case int16 (slice color1 5 7) of Inl e \<Rightarrow> Inl e | Inr b1 \<Rightarrow>
     (case int16 (slice color2 1 3) of Inl e \<Rightarrow> Inl e | Inr r2 \<Rightarrow>
     (case int16 (slice color2 3 5) of Inl e \<Rightarrow> Inl e | Inr g2 \<Rightarrow>
     (case int16 (slice color2 5 7) of Inl e \<Rightarrow> Inl e | Inr b2 \<Rightarrow>
        (let r = py_int (double (float_of_int r1 + double (float_of_int (r2 - r1) * factor)));
             g = py_int (double (float_of_int g1 + double (float_of_int (g2 - g1) * factor)));
             b = py_int (double (float_of_int b1 + double (float_of_int (b2 - b1) * factor)))
         in Inr (CHR ''#'' # fmt02x r @ fmt02x g @ fmt02x b))))))))"

definition get_branch_color_double :: "params \<Rightarrow> nat \<Rightarrow> error + string" where
  "get_branch_color_double ps d =
     (if d = 0 then Inr (trunk_color ps)
      else if max_depth ps \<le> int d then py_index (leaf_colors ps) (- 1)
      else
        (let progress = double (real d / real_of_int (max_depth ps));
             color_index = double (progress * float_of_int (int (length (leaf_colors ps)) - 1));
             idx1 = py_int color_index;
             idx2 = min (idx1 + 1) (int (length (leaf_colors ps)) - 1);
             factor = double (color_index - float_of_int idx1)
         in (case py_index (leaf_colors ps) idx1 of Inl e \<Rightarrow> Inl e | Inr color1 \<Rightarrow>
            (case py_index (leaf_colors ps) idx2 of Inl e \<Rightarrow> Inl e | Inr color2 \<Rightarrow>
               interpolate_color_double color1 color2 factor))))"

subsection \<open>The random source\<close>

text \<open>
  \<open>random.random()\<close> reads an ambient generator. It is modelled as the sequence of the
  samples still to come: a call returns the first one and leaves the rest. Nothing is
  assumed about the samples unless a theorem says so.
\<close>

type_synonym rand = "nat \<Rightarrow> real"

definition random_py :: "rand \<Rightarrow> real \<times> rand" where
  "random_py g = (g 0, \<lambda>n. g (Suc n))"

definition radians :: "real \<Rightarrow> real" where
  "radians x = x * pi / 180"

subsection \<open>Planting and resetting\<close>

definition plant_trunk :: "real \<Rightarrow> real \<Rightarrow> tree \<Rightarrow> tree" where
  "plant_trunk x y t =
     (let t1 = t\<lparr>branches := [], next_id := 0, current_depth := 0, tree_center := (x, y)\<rparr>;
          start_y = y;
          (end_y, base_angle) =
            (if upward_angle (params t1) then (y - base_length (params t1), 270)
             else (y + base_length (params t1), 90));
          trunk = \<lparr>b_id = next_id t1, parent_id = None, start = (x, start_y),
                    b_end = (x, end_y), depth = 0, b_length = base_length (params t1),
                    angle = base_angle, thickness = trunk_thickness (params t1),
                    color = trunk_color (params t1)\<rparr>
      in t1\<lparr>branches := branches t1 @ [trunk], next_id := next_id t1 + 1\<rparr>)"

definition reset_tree :: "tree \<Rightarrow> tree" where
  "reset_tree t = t\<lparr>click_count := 0, current_depth := 0, branches := [], next_id := 0\<rparr>"

subsection \<open>Growing\<close>

text \<open>
  The body of the inner loop of \<open>grow_one_level\<close>: one child of \<open>parent\<close> for one
  \<open>angle_offset\<close>. The two samples are drawn before the branch dictionary is built, so
  they are consumed also when \<open>get_branch_color\<close> raises.
\<close>

definition new_branch ::
  "params \<Rightarrow> nat \<Rightarrow> branch \<Rightarrow> real \<Rightarrow> nat \<Rightarrow> rand \<Rightarrow> (error + branch) \<times> rand" where
  "new_branch ps cur parent angle_offset nid g =
     (let (px, py) = b_end parent;
          (u1, g1) = random_py g;
          angle_variation' = angle_offset * (1 + (u1 - 0.5) * randomness ps * 2);
          new_angle = angle parent + angle_variation';
          new_length0 = b_length parent * length_factor ps;
          (u2, g2) = random_py g1;
          new_length = new_length0 * (1 + (u2 - 0.5) * randomness ps);
          rad_angle = radians new_angle;
          end_x = px + cos rad_angle * new_length;
          end_y = py + sin rad_angle * new_length
      in (case get_branch_color ps (cur + 1) of
            Inl e \<Rightarrow> (Inl e, g2)
          | Inr c \<Rightarrow>
              (Inr \<lparr>b_id = nid, parent_id = Some (b_id parent), start = (px, py),
                     b_end = (end_x, end_y), depth = cur + 1, b_length = new_length,
                     angle = new_angle, thickness = calculate_thickness ps (cur + 1),
                     color = c\<rparr>, g2)))"

text \<open>
  The loops thread \<open>new_branches\<close>, \<open>self.next_id\<close> and the random source. An exception
  leaves the loop with what has been assigned so far.
\<close>

type_synonym loop_state = "branch list \<times> nat \<times> rand"

fun grow_offsets ::
  "params \<Rightarrow> nat \<Rightarrow> branch \<Rightarrow> real list \<Rightarrow> loop_state \<Rightarrow> error option \<times> loop_state" where
  "grow_offsets ps cur parent [] st = (None, st)"
| "grow_offsets ps cur parent (angle_offset # offs) (new_branches, nid, g) =
     (case new_branch ps cur parent angle_offset nid g of
        (Inl e, g') \<Rightarrow> (Some e, (new_branches, nid, g'))
      | (Inr b, g') \<Rightarrow> grow_offsets ps cur parent offs (new_branches @ [b], nid + 1, g'))"

fun grow_parents ::
  "params \<Rightarrow> nat \<Rightarrow> branch list \<Rightarrow> loop_state \<Rightarrow> error option \<times> loop_state" where
  "grow_parents ps cur [] st = (None, st)"
| "grow_parents ps cur (parent # rest) st =
     (case grow_offsets ps cur parent [- angle_variation ps, angle_variation ps] st of
        (Some e, st') \<Rightarrow> (Some e, st')
      | (None, st') \<Rightarrow> grow_parents ps cur rest st')"

text \<open>
  \<open>grow_one_level\<close> returns what it reported (\<open>None\<close> when it grew a level), the state it
  leaves and the random source it leaves.
\<close>

definition grow_one_level :: "tree \<Rightarrow> rand \<Rightarrow> error option \<times> tree \<times> rand" where
  "grow_one_level t g =
     (if length (branches t) = 0 then (Some EmptyTreeError, t, g)
      else if max_depth (params t) \<le> int (current_depth t) then (Some MaxDepthReachedError, t, g)
      else
        (let terminal_branches = filter (\<lambda>b. depth b = current_depth t) (branches t)
         in (case grow_parents (params t) (current_depth t) terminal_branches ([], next_id t, g) of
               (Some e, (new_branches, nid, g')) \<Rightarrow> (Some e, t\<lparr>next_id := nid\<rparr>, g')
             | (None, (new_branches, nid, g')) \<Rightarrow>
                 (None, t\<lparr>next_id := nid, branches := branches t @ new_branches,
                            current_depth := current_depth t + 1\<rparr>, g'))))"

text \<open>
  The \<open>while\<close> loop of \<open>grow_full_tree\<close>. A call of \<open>grow_one_level\<close> that only shows a
  message returns normally and the loop goes on, so the loop as written need not end:
  \<open>None\<close> stands for a loop that never returns. An exception leaves the loop.
\<close>

partial_function (option) grow_loop :: "tree \<Rightarrow> rand \<Rightarrow> (error option \<times> tree \<times> rand) option" where
  "grow_loop t g =
     (if int (current_depth t) < max_depth (params t) then
        (if is_exception (fst (grow_one_level t g)) then Some (grow_one_level t g)
         else grow_loop (fst (snd (grow_one_level t g))) (snd (snd (grow_one_level t g))))
      else Some (None, t, g))"

definition grow_full_tree :: "tree \<Rightarrow> rand \<Rightarrow> (error option \<times> tree \<times> rand) option" where
  "grow_full_tree t g =
     (if length (branches t) = 0 then Some (Some EmptyTreeError, t, g)
      else grow_loop t g)"

section \<open>Specification-level notions\<close>

text \<open>
  The definitions of this section are not translated from the source. They state, in the
  words of the specification, what the claims say, and they are compared with the
  source's functions in the theorems below.
\<close>

subsection \<open>Colours as RGB values\<close>

text \<open>
  A well-formed colour is \<open>#rrggbb\<close>: a hash sign and six hex digits, of
  either case.
  Its channels are the values of the three digit pairs, and \<open>encode_rgb\<close>
  writes three
  channels between 0 and 255 back with lower-case digits.
\<close>

definition hex_color :: "string \<Rightarrow> bool" where
  "hex_color c = (length c = 7 \<and> hd c = CHR ''#'' \<and> list_all (\<lambda>ch. hex_val ch \<noteq> None) (tl c))"

definition valid_palette :: "params \<Rightarrow> bool" where
  "valid_palette ps = (leaf_colors ps \<noteq> [] \<and> list_all hex_color (leaf_colors ps))"

definition hex_pair :: "char \<Rightarrow> char \<Rightarrow> int" where
  "hex_pair a b = int (16 * the (hex_val a) + the (hex_val b))"

definition channels :: "string \<Rightarrow> int \<times> int \<times> int" where
  "channels c = (hex_pair (c ! 1) (c ! 2), hex_pair (c ! 3) (c ! 4), hex_pair (c ! 5) (c ! 6))"

definition hex2 :: "int \<Rightarrow> string" where
  "hex2 n = [hex_char (nat n div 16), hex_char (nat n mod 16)]"

definition encode_rgb :: "int \<times> int \<times> int \<Rightarrow> string" where
  "encode_rgb rgb = (case rgb of (r, g, b) \<Rightarrow> CHR ''#'' # hex2 r @ hex2 g @ hex2 b)"

definition lower_digit :: "char \<Rightarrow> bool" where
  "lower_digit c =
     (let n = (of_char c :: nat) in (48 \<le> n \<and> n \<le> 57) \<or> (97 \<le> n \<and> n \<le> 102))"

definition lower_hex_color :: "string \<Rightarrow> bool" where
  "lower_hex_color c = (length c = 7 \<and> hd c = CHR ''#'' \<and> list_all lower_digit (tl c))"

text \<open>
  The colour of the specification, its formulas read in exact arithmetic: the trunk colour
  at depth 0, the last palette entry from the maximum depth on, and between them the
  interpolation of two neighbouring palette entries, channel by channel, each channel
  rounded toward zero. Both indices lie within a non-empty palette.
\<close>

definition lerp :: "int \<Rightarrow> int \<Rightarrow> real \<Rightarrow> int" where
  "lerp a b f = py_int (real_of_int a + (real_of_int b - real_of_int a) * f)"

definition mix :: "string \<Rightarrow> string \<Rightarrow> real \<Rightarrow> string" where
  "mix c1 c2 f =
     (case (channels c1, channels c2) of
        ((r1, g1, b1), (r2, g2, b2)) \<Rightarrow> encode_rgb (lerp r1 r2 f, lerp g1 g2 f, lerp b1 b2 f))"

definition spec_color_at :: "params \<Rightarrow> nat \<Rightarrow> string" where
  "spec_color_at ps d =
     (if d = 0 then trunk_color ps
      else if max_depth ps \<le> int d then last (leaf_colors ps)
      else
        (let paletteSize = length (leaf_colors ps);
             progress = real d / real_of_int (max_depth ps);
             position = progress * real (paletteSize - 1);
             lowerIndex = nat \<lfloor>position\<rfloor>;
             upperIndex = min (lowerIndex + 1) (paletteSize - 1);
             fraction = position - real lowerIndex
         in mix (leaf_colors ps ! lowerIndex) (leaf_colors ps ! upperIndex) fraction))"

text \<open>
  The same colour with the formulas read in double arithmetic: the quotient, the product,
  the difference, and in every channel the scaled difference and the sum are each rounded
  to the nearest double before the channel is rounded toward zero.
\<close>

definition double_lerp :: "int \<Rightarrow> int \<Rightarrow> real \<Rightarrow> int" where
  "double_lerp a b f = py_int (double (real_of_int a + double (real_of_int (b - a) * f)))"

definition double_mix :: "string \<Rightarrow> string \<Rightarrow> real \<Rightarrow> string" where
  "double_mix c1 c2 f =
     (case (channels c1, channels c2) of
        ((r1, g1, b1), (r2, g2, b2)) \<Rightarrow>
          encode_rgb (double_lerp r1 r2 f, double_lerp g1 g2 f, double_lerp b1 b2 f))"

definition double_color_at :: "params \<Rightarrow> nat \<Rightarrow> string" where
  "double_color_at ps d =
     (if d = 0 then trunk_color ps
      else if max_depth ps \<le> int d then last (leaf_colors ps)
      else
        (let paletteSize = length (leaf_colors ps);
             progress = double (real d / real_of_int (max_depth ps));
             position = double (progress * real (paletteSize - 1));
             lowerIndex = nat \<lfloor>position\<rfloor>;
             upperIndex = min (lowerIndex + 1) (paletteSize - 1);
             fraction = double (position - real lowerIndex)
         in double_mix (leaf_colors ps ! lowerIndex) (leaf_colors ps ! upperIndex) fraction))"



definition upper_params :: params where
  "upper_params = default_params\<lparr>leaf_colors := [''#22C55E''], max_depth := 3\<rparr>"

subsection \<open>Children of a generation\<close>

text \<open>
  The child of parent \<open>p\<close> for the nominal offset \<open>offset\<close>, with
  \<open>u\<close> and \<open>u2\<close> the samples for
  the angle and for the length, as the specification describes it: the offset is scaled by
  \<open>1 + (u - 1/2) * 2 * R\<close>, the length by \<open>1 + (u2 - 1/2) * R\<close>,
  the child starts where
  the parent ends and ends \<open>length'\<close> further in the direction of its own angle.
\<close>

definition child ::
  "params \<Rightarrow> nat \<Rightarrow> string \<Rightarrow> branch \<Rightarrow> real \<Rightarrow> real \<Rightarrow> real \<Rightarrow> nat \<Rightarrow> branch" where
  "child ps cur c p offset u u2 nid =
     (let offset' = offset * (1 + (u - 1 / 2) * 2 * randomness ps);
          child_angle = angle p + offset';
          length' = (b_length p * length_factor ps) * (1 + (u2 - 1 / 2) * randomness ps)
      in \<lparr>b_id = nid, parent_id = Some (b_id p), start = b_end p,
           b_end = (fst (b_end p) + length' * cos (child_angle * pi / 180),
                    snd (b_end p) + length' * sin (child_angle * pi / 180)),
           depth = cur + 1, b_length = length', angle = child_angle,
           thickness = calculate_thickness ps (cur + 1), color = c\<rparr>)"

text \<open>
  The children of a list of parents, in order: for each parent the child for
  \<open>- angle_variation\<close>, then the child for \<open>+ angle_variation\<close>;
  four samples and two
  identifiers per parent.
\<close>

fun children :: "params \<Rightarrow> nat \<Rightarrow> string \<Rightarrow> branch list \<Rightarrow> nat \<Rightarrow> rand \<Rightarrow> branch list" where
  "children ps cur c [] nid g = []"
| "children ps cur c (p # rest) nid g =
     child ps cur c p (- angle_variation ps) (g 0) (g 1) nid #
     child ps cur c p (angle_variation ps) (g 2) (g 3) (nid + 1) #
     children ps cur c rest (nid + 2) (\<lambda>n. g (n + 4))"

text \<open>
  The branches that \<open>grow_one_level\<close> extends, and the state after a call
  that grew a
  level with colour \<open>c\<close>.
\<close>

definition terminal :: "tree \<Rightarrow> branch list" where
  "terminal t = filter (\<lambda>b. depth b = current_depth t) (branches t)"

definition grown :: "tree \<Rightarrow> string \<Rightarrow> rand \<Rightarrow> tree" where
  "grown t c g =
     t\<lparr>next_id := next_id t + 2 * length (terminal t),
       branches := branches t @ children (params t) (current_depth t) c (terminal t) (next_id t) g,
       current_depth := Suc (current_depth t)\<rparr>"

subsection \<open>Well-formed trees\<close>

text \<open>
  \<open>linked bs i\<close>: the branch at position \<open>i\<close> either is the trunk
  (first position, depth 0,
  no parent) or names as its parent an earlier position whose branch is one level less
  deep. \<open>tree_inv\<close> adds that identifiers are positions and that the
  identifier counter is
  the length of the collection.
\<close>

definition linked :: "branch list \<Rightarrow> nat \<Rightarrow> bool" where
  "linked bs i =
     (case parent_id (bs ! i) of
        None \<Rightarrow> i = 0 \<and> depth (bs ! i) = 0
      | Some j \<Rightarrow> j < i \<and> depth (bs ! i) = Suc (depth (bs ! j)))"

definition tree_inv :: "tree \<Rightarrow> bool" where
  "tree_inv t =
     (next_id t = length (branches t) \<and>
      map b_id (branches t) = [0..<length (branches t)] \<and>
      list_all (linked (branches t)) [0..<length (branches t)])"

text \<open>
  \<open>climb bs n b\<close> follows \<open>n\<close> parent links from
  \<open>b\<close>, looking each parent up by its identifier.
\<close>

fun climb :: "branch list \<Rightarrow> nat \<Rightarrow> branch \<Rightarrow> branch option" where
  "climb bs 0 b = Some b"
| "climb bs (Suc n) b =
     (case parent_id b of
        None \<Rightarrow> None
      | Some pid \<Rightarrow>
          (case find (\<lambda>p. b_id p = pid) bs of
             None \<Rightarrow> None
           | Some p \<Rightarrow> climb bs n p))"

subsection \<open>Sequences of calls\<close>

text \<open>
  The states that calls of \<open>plant_trunk\<close>, \<open>grow_one_level\<close>,
  \<open>grow_full_tree\<close> and
  \<open>reset_tree\<close> can produce from a fresh engine, under any configuration and
  any random
  samples. A call that reports an error or raises leaves a state too.
\<close>

inductive reachable :: "tree \<Rightarrow> bool" where
  start: "reachable (init ps)"
| plant: "reachable t \<Longrightarrow> reachable (plant_trunk x y t)"
| grow: "reachable t \<Longrightarrow> reachable (fst (snd (grow_one_level t g)))"
| full: "reachable t \<Longrightarrow> grow_full_tree t g = Some r \<Longrightarrow> reachable (fst (snd r))"
| reset: "reachable t \<Longrightarrow> reachable (reset_tree t)"

text \<open>
  A sequence of calls run from a state. A call that reports an error or raises does not
  stop the host: the next call runs on the state left behind.
\<close>

datatype call = PlantTrunk real real | GrowOneLevel | GrowFullTree | ResetTree

fun run :: "call list \<Rightarrow> tree \<Rightarrow> rand \<Rightarrow> (tree \<times> rand) option" where
  "run [] t g = Some (t, g)"
| "run (PlantTrunk x y # cs) t g = run cs (plant_trunk x y t) g"
| "run (GrowOneLevel # cs) t g =
     run cs (fst (snd (grow_one_level t g))) (snd (snd (grow_one_level t g)))"
| "run (GrowFullTree # cs) t g =
     (case grow_full_tree t g of
        None \<Rightarrow> None
      | Some r \<Rightarrow> run cs (fst (snd r)) (snd (snd r)))"
| "run (ResetTree # cs) t g = run cs (reset_tree t) g"

text \<open>
  \<open>grow_times n\<close>: \<open>n\<close> calls of \<open>grow_one_level\<close> in
  a row, stopping at the first that does not grow.
\<close>

fun grow_times :: "nat \<Rightarrow> tree \<Rightarrow> rand \<Rightarrow> error option \<times> tree \<times> rand" where
  "grow_times 0 t g = (None, t, g)"
| "grow_times (Suc n) t g =
     (if fst (grow_one_level t g) = None
      then grow_times n (fst (snd (grow_one_level t g))) (snd (snd (grow_one_level t g)))
      else grow_one_level t g)"

subsection \<open>Generations\<close>

text \<open>
  \<open>level_inv k t\<close>: the depth counter is \<open>k\<close> and the collection
  holds exactly \<open>2 ^ j\<close>
  branches of each depth \<open>j \<le> k\<close> and no others.
\<close>

definition level_inv :: "nat \<Rightarrow> tree \<Rightarrow> bool" where
  "level_inv k t =
     (current_depth t = k \<and> length (branches t) = 2 ^ Suc k - 1 \<and>
      (\<forall>j. length (filter (\<lambda>b. depth b = j) (branches t)) = (if j \<le> k then 2 ^ j else 0)))"

subsection \<open>Example states\<close>

text \<open>
  The scenario of the specification: the trunk planted at \<open>(600, 700)\<close> under
  the default
  configuration, and one level grown from it with every sample equal to
  \<open>1/2\<close>, which
  leaves offsets and lengths without jitter.
\<close>

definition planted :: tree where
  "planted = plant_trunk 600 700 (init default_params)"

definition example_tree :: tree where
  "example_tree = fst (snd (grow_one_level planted (\<lambda>_. 1 / 2)))"

section \<open>Auxiliary lemmas\<close>

subsection \<open>The loops of \<open>grow_one_level\<close>\<close>

text \<open>
  When the colour of the next depth is computed without an exception, the two loops append
  \<open>children\<close>; when it raises, they stop at the first child, before anything is assigned.
\<close>

lemma new_branch_unfold:
  assumes "get_branch_color ps (Suc cur) = Inr c" and e: "b_end p = (px, py)"
  shows "new_branch ps cur p off nid g =
    (Inr \<lparr>b_id = nid, parent_id = Some (b_id p), start = (px, py),
          b_end = (px + cos ((angle p + off * (1 + (g 0 - 5 / 10) * randomness ps * 2)) * pi / 180) *
                     (b_length p * length_factor ps * (1 + (g (Suc 0) - 5 / 10) * randomness ps)),
                   py + sin ((angle p + off * (1 + (g 0 - 5 / 10) * randomness ps * 2)) * pi / 180) *
                     (b_length p * length_factor ps * (1 + (g (Suc 0) - 5 / 10) * randomness ps))),
          depth = Suc cur,
          b_length = b_length p * length_factor ps * (1 + (g (Suc 0) - 5 / 10) * randomness ps),
          angle = angle p + off * (1 + (g 0 - 5 / 10) * randomness ps * 2),
          thickness = calculate_thickness ps (Suc cur), color = c\<rparr>,
     \<lambda>n. g (Suc (Suc n)))"
  unfolding new_branch_def random_py_def radians_def Let_def e prod.case
  by (simp only: assms Suc_eq_plus1 [symmetric] sum.case)

lemma new_branch_ok:
  assumes "get_branch_color ps (Suc cur) = Inr c"
  shows "new_branch ps cur p off nid g =
    (Inr (child ps cur c p off (g 0) (g 1) nid), \<lambda>n. g (n + 2))"
proof -
  obtain px py where e: "b_end p = (px, py)"
    by (cases "b_end p")
  have r: "(\<lambda>n. g (Suc (Suc n))) = (\<lambda>n. g (n + 2))"
    by (rule ext) simp
  show ?thesis
    unfolding new_branch_unfold [OF assms e] r
    by (simp add: child_def Let_def e mult_ac)
qed

lemma new_branch_fail:
  assumes "get_branch_color ps (Suc cur) = Inl e"
  shows "new_branch ps cur p off nid g = (Inl e, \<lambda>n. g (n + 2))"
proof -
  obtain px py where e: "b_end p = (px, py)"
    by (cases "b_end p")
  have r: "(\<lambda>n. g (Suc (Suc n))) = (\<lambda>n. g (n + 2))"
    by (rule ext) simp
  have "new_branch ps cur p off nid g = (Inl e, \<lambda>n. g (Suc (Suc n)))"
    unfolding new_branch_def random_py_def radians_def Let_def e prod.case
    by (simp only: assms Suc_eq_plus1 [symmetric] sum.case)
  then show ?thesis
    by (simp only: r)
qed

lemma grow_offsets_ok:
  assumes "get_branch_color ps (Suc cur) = Inr c"
  shows "grow_offsets ps cur p [a, b] (nb, nid, g) =
    (None, (nb @ [child ps cur c p a (g 0) (g 1) nid, child ps cur c p b (g 2) (g 3) (nid + 1)],
            nid + 2, \<lambda>n. g (n + 4)))"
proof -
  have "(\<lambda>n. g (Suc (Suc (Suc (Suc n))))) = (\<lambda>n. g (n + 4))"
    by (rule ext) (rule arg_cong [of _ _ g], arith)
  then show ?thesis
    by (simp add: new_branch_ok [OF assms] numeral_2_eq_2 [symmetric] numeral_3_eq_3 [symmetric])
qed

lemma grow_parents_ok:
  "get_branch_color ps (Suc cur) = Inr c \<Longrightarrow>
   grow_parents ps cur parents (nb, nid, g) =
     (None, (nb @ children ps cur c parents nid g, nid + 2 * length parents,
             \<lambda>n. g (n + 4 * length parents)))"
proof (induction parents arbitrary: nb nid g)
  case Nil
  then show ?case by simp
next
  case (Cons p rest)
  have "(\<lambda>n. g (n + 4 * length rest + 4)) = (\<lambda>n. g (n + 4 * length (p # rest)))"
    by (rule ext) (rule arg_cong [of _ _ g], simp)
  then show ?case
    by (simp add: grow_offsets_ok [OF Cons.prems] Cons.IH [OF Cons.prems] del: grow_offsets.simps)
qed

lemma grow_parents_fail:
  "get_branch_color ps (Suc cur) = Inl e \<Longrightarrow>
   grow_parents ps cur (p # rest) (nb, nid, g) = (Some e, (nb, nid, \<lambda>n. g (n + 2)))"
  by (simp add: new_branch_fail)

subsection \<open>Parsing and printing colours\<close>

lemma hex_val_not_special:
  assumes "hex_val a = Some x"
  shows "\<not> py_isspace a" "a \<noteq> CHR ''+''" "a \<noteq> CHR ''-''" "a \<noteq> CHR ''_''"
    "a \<noteq> CHR ''x''" "a \<noteq> CHR ''X''"
  using assms by (auto simp: hex_val_def py_isspace_def Let_def split: if_splits)

lemma hex_val_less: "hex_val a = Some x \<Longrightarrow> x < 16"
  by (auto simp: hex_val_def Let_def split: if_splits)

lemma int16_two_hex:
  assumes a: "hex_val a = Some x" and b: "hex_val b = Some y"
  shows "int16 [a, b] = Inr (int (16 * x + y))"
  using hex_val_not_special [OF a] hex_val_not_special [OF b] a b
  by (simp add: int16_def skip_prefix_def digits16_def)

lemma hex_color_shape:
  assumes "hex_color c"
  obtains a1 a2 a3 a4 a5 a6 where "c = [CHR ''#'', a1, a2, a3, a4, a5, a6]"
    and "hex_val a1 \<noteq> None" "hex_val a2 \<noteq> None" "hex_val a3 \<noteq> None"
    and "hex_val a4 \<noteq> None" "hex_val a5 \<noteq> None" "hex_val a6 \<noteq> None"
proof -
  from assms have l: "length c = Suc (Suc (Suc (Suc (Suc (Suc (Suc 0))))))"
    by (simp add: hex_color_def eval_nat_numeral)
  then obtain h a1 a2 a3 a4 a5 a6 where c: "c = [h, a1, a2, a3, a4, a5, a6]"
    by (auto simp: length_Suc_conv)
  with assms show ?thesis
    by (intro that [of a1 a2 a3 a4 a5 a6]) (simp_all add: hex_color_def)
qed

lemma channels_shape:
  "channels [h, a1, a2, a3, a4, a5, a6] = (hex_pair a1 a2, hex_pair a3 a4, hex_pair a5 a6)"
  by (simp add: channels_def eval_nat_numeral)

lemma slice_shape:
  "slice [h, a1, a2, a3, a4, a5, a6] 1 3 = [a1, a2]"
  "slice [h, a1, a2, a3, a4, a5, a6] 3 5 = [a3, a4]"
  "slice [h, a1, a2, a3, a4, a5, a6] 5 7 = [a5, a6]"
  by (simp_all add: slice_def eval_nat_numeral)

lemma int16_hex_pair:
  assumes "hex_val a \<noteq> None" "hex_val b \<noteq> None"
  shows "int16 [a, b] = Inr (hex_pair a b)"
proof -
  from assms obtain x y where v: "hex_val a = Some x" "hex_val b = Some y"
    by auto
  show ?thesis
    by (simp add: int16_two_hex [OF v] hex_pair_def v)
qed

lemma hex_pair_range:
  assumes "hex_val a \<noteq> None" "hex_val b \<noteq> None"
  shows "0 \<le> hex_pair a b" "hex_pair a b \<le> 255"
proof -
  from assms obtain x y where v: "hex_val a = Some x" "hex_val b = Some y"
    by auto
  show "0 \<le> hex_pair a b"
    by (simp add: hex_pair_def)
  show "hex_pair a b \<le> 255"
    using hex_val_less [OF v(1)] hex_val_less [OF v(2)] by (simp add: hex_pair_def v)
qed

lemma int16_slices:
  assumes "hex_color c"
  shows "int16 (slice c 1 3) = Inr (fst (channels c))"
    "int16 (slice c 3 5) = Inr (fst (snd (channels c)))"
    "int16 (slice c 5 7) = Inr (snd (snd (channels c)))"
proof -
  from assms obtain a1 a2 a3 a4 a5 a6 where c: "c = [CHR ''#'', a1, a2, a3, a4, a5, a6]"
    and h: "hex_val a1 \<noteq> None" "hex_val a2 \<noteq> None" "hex_val a3 \<noteq> None"
      "hex_val a4 \<noteq> None" "hex_val a5 \<noteq> None" "hex_val a6 \<noteq> None"
    by (rule hex_color_shape)
  show "int16 (slice c 1 3) = Inr (fst (channels c))"
    unfolding c slice_shape channels_shape by (simp add: int16_hex_pair h)
  show "int16 (slice c 3 5) = Inr (fst (snd (channels c)))"
    unfolding c slice_shape channels_shape by (simp add: int16_hex_pair h)
  show "int16 (slice c 5 7) = Inr (snd (snd (channels c)))"
    unfolding c slice_shape channels_shape by (simp add: int16_hex_pair h)
qed

lemma channels_range:
  assumes "hex_color c"
  shows "0 \<le> fst (channels c)" "fst (channels c) \<le> 255"
    "0 \<le> fst (snd (channels c))" "fst (snd (channels c)) \<le> 255"
    "0 \<le> snd (snd (channels c))" "snd (snd (channels c)) \<le> 255"
proof -
  from assms obtain a1 a2 a3 a4 a5 a6 where c: "c = [CHR ''#'', a1, a2, a3, a4, a5, a6]"
    and h: "hex_val a1 \<noteq> None" "hex_val a2 \<noteq> None" "hex_val a3 \<noteq> None"
      "hex_val a4 \<noteq> None" "hex_val a5 \<noteq> None" "hex_val a6 \<noteq> None"
    by (rule hex_color_shape)
  show "0 \<le> fst (channels c)" "fst (channels c) \<le> 255"
    "0 \<le> fst (snd (channels c))" "fst (snd (channels c)) \<le> 255"
    "0 \<le> snd (snd (channels c))" "snd (snd (channels c)) \<le> 255"
    unfolding c channels_shape by (simp_all add: hex_pair_range h)
qed

lemma fmt02x_hex2:
  assumes "0 \<le> r" "r \<le> 255"
  shows "fmt02x r = hex2 r"
proof (cases "nat r < 16")
  case True
  have "(of_char (char_of (48::nat)) :: nat) = of_char CHR ''0''"
    by simp
  then have "char_of (48::nat) = CHR ''0''"
    by (simp only: of_char_eq_iff)
  with True show ?thesis
    using assms by (simp add: fmt02x_def hex2_def hex_char_def)
next
  case False
  moreover from assms have "nat r div 16 < 16"
    by simp
  ultimately show ?thesis
    using assms hex_str.simps [of "nat r"] hex_str.simps [of "nat r div 16"]
    by (simp add: fmt02x_def hex2_def del: hex_str.simps)
qed

lemma lerp_range:
  assumes a: "0 \<le> a" "a \<le> 255" and b: "0 \<le> b" "b \<le> 255" and f: "0 \<le> f" "f \<le> 1"
  shows "0 \<le> lerp a b f" "lerp a b f \<le> 255"
proof -
  let ?x = "real_of_int a + (real_of_int b - real_of_int a) * f"
  have e: "?x = real_of_int a * (1 - f) + real_of_int b * f"
    by (simp add: algebra_simps)
  have lo: "0 \<le> ?x"
    unfolding e using a b f by (intro add_nonneg_nonneg mult_nonneg_nonneg) simp_all
  have "real_of_int a \<le> 255" "real_of_int b \<le> 255" "0 \<le> 1 - f"
    using a b f by simp_all
  then have "real_of_int a * (1 - f) \<le> 255 * (1 - f)" "real_of_int b * f \<le> 255 * f"
    using f by (simp_all only: mult_right_mono)
  then have hi: "?x \<le> 255"
    unfolding e by (simp add: algebra_simps)
  have l: "lerp a b f = \<lfloor>?x\<rfloor>"
    unfolding lerp_def py_int_def using lo by (simp only: if_True)
  show "0 \<le> lerp a b f"
    unfolding l using lo by (rule iffD2 [OF zero_le_floor])
  show "lerp a b f \<le> 255"
    unfolding l using of_int_floor_le [of ?x] hi by linarith
qed

lemma interpolate_color_mix:
  assumes c1: "hex_color c1" and c2: "hex_color c2" and f: "0 \<le> f" "f \<le> 1"
  shows "interpolate_color c1 c2 f = Inr (mix c1 c2 f)"
proof -
  obtain r1 g1 b1 where k1: "channels c1 = (r1, g1, b1)"
    by (cases "channels c1") auto
  obtain r2 g2 b2 where k2: "channels c2 = (r2, g2, b2)"
    by (cases "channels c2") auto
  note s1 = int16_slices [OF c1, unfolded k1 fst_conv snd_conv]
  note s2 = int16_slices [OF c2, unfolded k2 fst_conv snd_conv]
  note n1 = channels_range [OF c1, unfolded k1 fst_conv snd_conv]
  note n2 = channels_range [OF c2, unfolded k2 fst_conv snd_conv]
  have "fmt02x (lerp r1 r2 f) = hex2 (lerp r1 r2 f)"
    "fmt02x (lerp g1 g2 f) = hex2 (lerp g1 g2 f)"
    "fmt02x (lerp b1 b2 f) = hex2 (lerp b1 b2 f)"
    using n1 n2 f by (simp_all add: fmt02x_hex2 lerp_range)
  then show ?thesis
    unfolding interpolate_color_def s1 s2 sum.case
    by (simp add: mix_def k1 k2 encode_rgb_def Let_def lerp_def)
qed

lemma palette_position:
  fixes d :: nat and m :: int and n :: nat
  assumes d: "0 < d" "int d < m" and n: "0 < n"
  defines "pos \<equiv> real d / real_of_int m * real_of_int (int n - 1)"
  shows "py_int pos = \<lfloor>pos\<rfloor>" "0 \<le> \<lfloor>pos\<rfloor>" "\<lfloor>pos\<rfloor> < int n"
    "0 \<le> pos - real_of_int \<lfloor>pos\<rfloor>" "pos - real_of_int \<lfloor>pos\<rfloor> \<le> 1"
proof -
  have m: "0 < real_of_int m" "real d < real_of_int m"
    using d by linarith+
  have p: "0 \<le> real d / real_of_int m" "real d / real_of_int m < 1"
    using m d by simp_all
  have k: "0 \<le> real_of_int (int n - 1)"
    using n by simp
  have lo: "0 \<le> pos"
    unfolding pos_def using p k by (intro mult_nonneg_nonneg)
  have "pos \<le> 1 * real_of_int (int n - 1)"
    unfolding pos_def using p k by (intro mult_right_mono) simp_all
  then have hi: "pos < real n"
    by simp
  show "py_int pos = \<lfloor>pos\<rfloor>"
    using lo by (simp add: py_int_def)
  show "0 \<le> \<lfloor>pos\<rfloor>"
    using lo by simp
  show "\<lfloor>pos\<rfloor> < int n"
    using hi by (simp add: floor_less_iff)
  show "0 \<le> pos - real_of_int \<lfloor>pos\<rfloor>" "pos - real_of_int \<lfloor>pos\<rfloor> \<le> 1"
    by linarith+
qed

lemma py_index_nth: "i < length xs \<Longrightarrow> py_index xs (int i) = Inr (xs ! i)"
  by (simp add: py_index_def)

lemma py_index_last: "xs \<noteq> [] \<Longrightarrow> py_index xs (- 1) = Inr (last xs)"
  by (cases xs rule: rev_cases) (simp_all add: py_index_def nat_add_distrib)

lemma get_branch_color_spec:
  assumes "valid_palette ps"
  shows "get_branch_color ps d = Inr (spec_color_at ps d)"
proof -
  let ?lc = "leaf_colors ps"
  let ?n = "length ?lc"
  from assms have ne: "?lc \<noteq> []" and hex: "\<And>i. i < ?n \<Longrightarrow> hex_color (?lc ! i)"
    by (simp_all add: valid_palette_def list_all_length)
  from ne have n: "0 < ?n"
    by simp
  consider "d = 0" | "0 < d" "max_depth ps \<le> int d" | "0 < d" "int d < max_depth ps"
    by linarith
  then show ?thesis
  proof cases
    case 1
    then show ?thesis
      by (simp add: get_branch_color_def spec_color_at_def)
  next
    case 2
    then show ?thesis
      by (simp add: get_branch_color_def spec_color_at_def py_index_last [OF ne])
  next
    case 3
    define pos where "pos = real d / real_of_int (max_depth ps) * real_of_int (int ?n - 1)"
    define lo where "lo = nat \<lfloor>pos\<rfloor>"
    define up where "up = min (lo + 1) (?n - 1)"
    note pp = palette_position [OF 3 n, folded pos_def]
    have lo: "lo < ?n" "\<lfloor>pos\<rfloor> = int lo"
      using pp(2,3) unfolding lo_def by linarith+
    have up: "up < ?n" "min (\<lfloor>pos\<rfloor> + 1) (int ?n - 1) = int up"
      using n lo unfolding up_def min_def by (simp_all, linarith+)
    have fr: "pos - real_of_int \<lfloor>pos\<rfloor> = pos - real lo"
      by (simp add: lo(2))
    have "real (?n - 1) = real_of_int (int ?n - 1)"
      using ne by (cases ?lc) simp_all
    then have sp: "real d / real_of_int (max_depth ps) * real (?n - 1) = pos"
      by (simp only: pos_def)
    have code: "get_branch_color ps d =
        interpolate_color (?lc ! lo) (?lc ! up) (pos - real lo)"
      using 3 unfolding get_branch_color_def Let_def pos_def [symmetric] pp(1) up(2)
      unfolding lo(2) py_index_nth [OF lo(1)] py_index_nth [OF up(1)]
      by simp
    have spec: "spec_color_at ps d = mix (?lc ! lo) (?lc ! up) (pos - real lo)"
      using 3 unfolding spec_color_at_def Let_def sp
      by (simp add: lo_def up_def)
    have "0 \<le> pos - real lo" "pos - real lo \<le> 1"
      using pp(4,5) by (simp_all add: fr)
    then show ?thesis
      unfolding code spec by (intro interpolate_color_mix hex lo up)
  qed
qed

lemma hex_val_hex_char: "n < 16 \<Longrightarrow> hex_val (hex_char n) = Some n"
  by (simp add: hex_val_def hex_char_def Let_def)

lemma char_of_nat_eq: "(char_of (n::nat) = c) = (n mod 256 = of_char c)"
  by (simp add: char_of_eq_iff take_bit_eq_mod)

lemma hex_char_hex_val:
  assumes "lower_digit c"
  shows "hex_val c \<noteq> None" "hex_char (the (hex_val c)) = c"
proof -
  define n where "n = (of_char c :: nat)"
  have n: "n < 256"
    unfolding n_def by simp
  from assms consider "48 \<le> n" "n \<le> 57" | "97 \<le> n" "n \<le> 102"
    by (auto simp: lower_digit_def Let_def n_def)
  then have "hex_val c \<noteq> None \<and> hex_char (the (hex_val c)) = c"
  proof cases
    case 1
    then show ?thesis
      unfolding hex_val_def hex_char_def Let_def n_def [symmetric]
      by (simp add: char_of_nat_eq n_def)
  next
    case 2
    then show ?thesis
      unfolding hex_val_def hex_char_def Let_def n_def [symmetric]
      by (simp add: char_of_nat_eq n_def)
  qed
  then show "hex_val c \<noteq> None" "hex_char (the (hex_val c)) = c"
    by simp_all
qed

lemma hex_pair_hex2:
  assumes "n < 256"
  shows "hex_pair (hex_char (n div 16)) (hex_char (n mod 16)) = int n"
proof -
  from assms have "n div 16 < 16" "n mod 16 < 16"
    by simp_all
  then show ?thesis
    by (simp add: hex_pair_def hex_val_hex_char)
qed

lemma hex2_hex_pair:
  assumes "lower_digit a" "lower_digit b"
  shows "hex2 (hex_pair a b) = [a, b]"
proof -
  from hex_char_hex_val [OF assms(1)] obtain x where x: "hex_val a = Some x" "hex_char x = a"
    by auto
  from hex_char_hex_val [OF assms(2)] obtain y where y: "hex_val b = Some y" "hex_char y = b"
    by auto
  have "y < 16"
    using y(1) by (rule hex_val_less)
  then have "(16 * x + y) div 16 = x" "(16 * x + y) mod 16 = y"
    by simp_all
  moreover have "nat (hex_pair a b) = 16 * x + y"
    by (simp add: hex_pair_def x y)
  ultimately show ?thesis
    by (simp add: hex2_def x y)
qed

lemma lerp_same: "lerp a a f = a"
  by (simp add: lerp_def py_int_def)

lemma mix_same: "mix c c f = encode_rgb (channels c)"
  by (cases "channels c") (simp add: mix_def lerp_same)

lemma channels_encode_rgb:
  assumes "hex_color c"
  shows "channels (encode_rgb (channels c)) = channels c"
proof -
  obtain r g b where k: "channels c = (r, g, b)"
    by (cases "channels c") auto
  note n = channels_range [OF assms, unfolded k fst_conv snd_conv]
  have "nat r < 256" "nat g < 256" "nat b < 256"
    using n by simp_all
  then have "hex_pair (hex_char (nat r div 16)) (hex_char (nat r mod 16)) = r"
    "hex_pair (hex_char (nat g div 16)) (hex_char (nat g mod 16)) = g"
    "hex_pair (hex_char (nat b div 16)) (hex_char (nat b mod 16)) = b"
    using n by (simp_all add: hex_pair_hex2)
  then show ?thesis
    by (simp add: k encode_rgb_def hex2_def channels_shape)
qed

lemma encode_rgb_channels:
  assumes "lower_hex_color c"
  shows "encode_rgb (channels c) = c"
proof -
  from assms have l: "length c = Suc (Suc (Suc (Suc (Suc (Suc (Suc 0))))))"
    by (simp add: lower_hex_color_def eval_nat_numeral)
  then obtain h a1 a2 a3 a4 a5 a6 where c: "c = [h, a1, a2, a3, a4, a5, a6]"
    by (auto simp: length_Suc_conv)
  with assms have "h = CHR ''#''" "lower_digit a1" "lower_digit a2" "lower_digit a3"
    "lower_digit a4" "lower_digit a5" "lower_digit a6"
    by (simp_all add: lower_hex_color_def)
  then show ?thesis
    unfolding c channels_shape by (simp add: encode_rgb_def hex2_hex_pair)
qed

lemma single_palette_spec:
  assumes "leaf_colors ps = [c]" "0 < d"
  shows "spec_color_at ps d = (if max_depth ps \<le> int d then c else encode_rgb (channels c))"
  using assms by (simp add: spec_color_at_def mix_same)

subsection \<open>The outcomes of \<open>grow_one_level\<close>\<close>

lemma int16_error: "int16 s = Inl e \<Longrightarrow> e = ValueError"
  by (auto simp: int16_def Let_def split: option.splits prod.splits if_splits list.splits)

lemma py_index_error: "py_index xs i = Inl e \<Longrightarrow> e = IndexError"
  by (auto simp: py_index_def split: if_splits)

lemma interpolate_color_error: "interpolate_color c1 c2 f = Inl e \<Longrightarrow> e = ValueError"
  by (auto simp: interpolate_color_def Let_def split: sum.splits dest: int16_error)

lemma get_branch_color_error:
  "get_branch_color ps d = Inl e \<Longrightarrow> e = IndexError \<or> e = ValueError"
  by (auto simp: get_branch_color_def Let_def split: if_splits sum.splits
      dest: py_index_error interpolate_color_error)

lemma grow_one_level_empty:
  "branches t = [] \<Longrightarrow> grow_one_level t g = (Some EmptyTreeError, t, g)"
  by (simp add: grow_one_level_def)

lemma grow_one_level_max:
  "branches t \<noteq> [] \<Longrightarrow> max_depth (params t) \<le> int (current_depth t) \<Longrightarrow>
   grow_one_level t g = (Some MaxDepthReachedError, t, g)"
  by (simp add: grow_one_level_def)

lemma grow_one_level_ok:
  assumes "branches t \<noteq> []" "int (current_depth t) < max_depth (params t)"
    and c: "get_branch_color (params t) (Suc (current_depth t)) = Inr c"
  shows "grow_one_level t g =
    (None,
     t\<lparr>next_id := next_id t + 2 * length (terminal t),
       branches := branches t @ children (params t) (current_depth t) c (terminal t) (next_id t) g,
       current_depth := Suc (current_depth t)\<rparr>,
     \<lambda>n. g (n + 4 * length (terminal t)))"
  using assms(1,2)
  by (simp add: grow_one_level_def Let_def terminal_def [symmetric] grow_parents_ok [OF c])

lemma grow_one_level_raise:
  assumes "branches t \<noteq> []" "int (current_depth t) < max_depth (params t)"
    and c: "get_branch_color (params t) (Suc (current_depth t)) = Inl e"
    and p: "terminal t \<noteq> []"
  shows "grow_one_level t g = (Some e, t, \<lambda>n. g (n + 2))"
proof -
  from p obtain p rest where "terminal t = p # rest"
    by (cases "terminal t") auto
  then show ?thesis
    using assms(1,2)
    by (simp add: grow_one_level_def Let_def terminal_def [symmetric] grow_parents_fail [OF c]
        del: grow_parents.simps)
qed

lemma grow_one_level_no_parent:
  assumes "branches t \<noteq> []" "int (current_depth t) < max_depth (params t)"
    and p: "terminal t = []"
  shows "grow_one_level t g = (None, t\<lparr>current_depth := Suc (current_depth t)\<rparr>, g)"
  using assms
  by (simp add: grow_one_level_def Let_def terminal_def [symmetric])

lemma grow_one_level_cases:
  obtains (empty) "branches t = []" "grow_one_level t g = (Some EmptyTreeError, t, g)"
  | (max) "branches t \<noteq> []" "max_depth (params t) \<le> int (current_depth t)"
      "grow_one_level t g = (Some MaxDepthReachedError, t, g)"
  | (raised) e where "branches t \<noteq> []" "int (current_depth t) < max_depth (params t)"
      "e = IndexError \<or> e = ValueError" "grow_one_level t g = (Some e, t, \<lambda>n. g (n + 2))"
  | (grown) c where "branches t \<noteq> []" "int (current_depth t) < max_depth (params t)"
      "grow_one_level t g = (None, grown t c g, \<lambda>n. g (n + 4 * length (terminal t)))"
proof -
  consider "branches t = []"
    | "branches t \<noteq> []" "max_depth (params t) \<le> int (current_depth t)"
    | c where "branches t \<noteq> []" "int (current_depth t) < max_depth (params t)"
        "get_branch_color (params t) (Suc (current_depth t)) = Inr c"
    | e where "branches t \<noteq> []" "int (current_depth t) < max_depth (params t)"
        "get_branch_color (params t) (Suc (current_depth t)) = Inl e" "terminal t \<noteq> []"
    | e where "branches t \<noteq> []" "int (current_depth t) < max_depth (params t)"
        "get_branch_color (params t) (Suc (current_depth t)) = Inl e" "terminal t = []"
    by (cases "get_branch_color (params t) (Suc (current_depth t))") fastforce+
  then show ?thesis
  proof cases
    case 1
    then show ?thesis
      by (intro empty) (simp_all add: grow_one_level_empty)
  next
    case 2
    then show ?thesis
      by (intro max) (simp_all add: grow_one_level_max)
  next
    case 3
    then show ?thesis
      by (intro grown [of c]) (simp_all add: grow_one_level_ok grown_def)
  next
    case 4
    then show ?thesis
      by (intro raised [of e]) (simp_all add: grow_one_level_raise get_branch_color_error)
  next
    case 5
    then show ?thesis
      by (intro grown [of "[]"]) (simp_all add: grow_one_level_no_parent grown_def)
  qed
qed

lemma grown_fields:
  "params (grown t c g) = params t" "current_depth (grown t c g) = Suc (current_depth t)"
  "click_count (grown t c g) = click_count t" "tree_center (grown t c g) = tree_center t"
  "branches t \<noteq> [] \<Longrightarrow> branches (grown t c g) \<noteq> []"
  by (simp_all add: grown_def)

subsection \<open>The children of a generation\<close>

lemma length_children: "length (children ps cur c parents nid g) = 2 * length parents"
  by (induction parents arbitrary: nid g) simp_all

lemma ids_children:
  "map b_id (children ps cur c parents nid g) = [nid..<nid + 2 * length parents]"
proof (induction parents arbitrary: nid g)
  case Nil
  then show ?case by simp
next
  case (Cons p rest)
  have "[nid..<nid + 2 * length (p # rest)] = nid # [Suc nid..<nid + 2 * length (p # rest)]"
    by (rule upt_conv_Cons) simp
  also have "[Suc nid..<nid + 2 * length (p # rest)]
      = Suc nid # [Suc (Suc nid)..<nid + 2 * length (p # rest)]"
    by (rule upt_conv_Cons) simp
  finally have "[nid..<nid + 2 * length (p # rest)]
      = nid # Suc nid # [nid + 2..<nid + 2 + 2 * length rest]"
    by simp
  then show ?case
    by (simp add: Cons.IH child_def Let_def)
qed

lemma children_parent:
  "b \<in> set (children ps cur c parents nid g) \<Longrightarrow>
   depth b = Suc cur \<and> (\<exists>p\<in>set parents. parent_id b = Some (b_id p))"
  by (induction parents arbitrary: nid g) (auto simp: child_def Let_def)

lemma nth_children:
  "i < 2 * length parents \<Longrightarrow>
   children ps cur c parents nid g ! i =
     child ps cur c (parents ! (i div 2))
       (if even i then - angle_variation ps else angle_variation ps)
       (g (2 * i)) (g (2 * i + 1)) (nid + i)"
proof (induction parents arbitrary: i nid g)
  case Nil
  then show ?case by simp
next
  case (Cons p rest)
  consider "i = 0" | "i = 1" | j where "i = j + 2"
    by (metis One_nat_def add_2_eq_Suc' not0_implies_Suc)
  then show ?case
  proof cases
    case 1
    then show ?thesis by simp
  next
    case 2
    then show ?thesis by simp
  next
    case 3
    with Cons.prems have j: "j < 2 * length rest"
      by simp
    have e: "4 + 2 * j = 2 * (j + 2)" "5 + 2 * j = 2 * (j + 2) + 1"
      "nid + 2 + j = nid + (j + 2)" "2 * j + 4 = 2 * (j + 2)" "2 * j + 1 + 4 = 2 * (j + 2) + 1"
      by simp_all
    show ?thesis
      unfolding 3 using Cons.IH [OF j, of "nid + 2" "\<lambda>n. g (n + 4)"]
      by (simp add: e del: mult_Suc_right)
  qed
qed

subsection \<open>The invariant of well-formed trees\<close>

text \<open>
  \<open>grow_full_tree\<close> returns from every state, and every operation preserves \<open>tree_inv\<close>.
\<close>

lemma tree_inv_init: "tree_inv (init ps)"
  by (simp add: tree_inv_def init_def)

lemma tree_inv_reset: "tree_inv (reset_tree t)"
  by (simp add: tree_inv_def reset_tree_def)

lemma tree_inv_plant: "tree_inv (plant_trunk x y t)"
  by (simp add: tree_inv_def plant_trunk_def Let_def linked_def split: prod.splits)

lemma tree_inv_grown:
  assumes "tree_inv t"
  shows "tree_inv (grown t c g)"
proof -
  let ?bs = "branches t"
  let ?ch = "children (params t) (current_depth t) c (terminal t) (next_id t) g"
  let ?n = "length ?bs"
  from assms have nid: "next_id t = ?n" and ids: "map b_id ?bs = [0..<?n]"
    and lk: "\<And>i. i < ?n \<Longrightarrow> linked ?bs i"
    by (simp_all add: tree_inv_def list_all_iff)
  have len: "length (?bs @ ?ch) = ?n + 2 * length (terminal t)"
    by (simp add: length_children)
  have ids': "map b_id (?bs @ ?ch) = [0..<?n + 2 * length (terminal t)]"
    by (simp add: ids ids_children nid upt_add_eq_append [of 0, simplified])
  have id_nth: "b_id (?bs ! j) = j" if "j < ?n" for j
    using arg_cong [OF ids, of "\<lambda>xs. xs ! j"] that by simp
  have lk': "linked (?bs @ ?ch) i" if i: "i < ?n + 2 * length (terminal t)" for i
  proof (cases "i < ?n")
    case True
    with lk [OF True] show ?thesis
      by (auto simp: linked_def nth_append split: option.splits)
  next
    case False
    define b where "b = ?ch ! (i - ?n)"
    from False i have "b \<in> set ?ch"
      unfolding b_def by (intro nth_mem) (simp add: length_children)
    from children_parent [OF this] obtain p where d: "depth b = Suc (current_depth t)"
      and p: "p \<in> set (terminal t)" "parent_id b = Some (b_id p)"
      by blast
    from p(1) have "p \<in> set ?bs" and dp: "depth p = current_depth t"
      by (simp_all add: terminal_def)
    then obtain j where j: "j < ?n" "?bs ! j = p"
      by (auto simp: in_set_conv_nth)
    have "b_id p = j"
      using id_nth [OF j(1)] j(2) by simp
    with False j d dp p(2) show ?thesis
      by (simp add: linked_def nth_append b_def [symmetric])
  qed
  show ?thesis
    unfolding tree_inv_def grown_def
    using ids' [unfolded nid] lk' [unfolded nid]
    by (simp add: nid list_all_iff length_children del: map_append)
qed

lemma tree_inv_grow_one_level: "tree_inv t \<Longrightarrow> tree_inv (fst (snd (grow_one_level t g)))"
  by (cases t g rule: grow_one_level_cases) (simp_all add: tree_inv_grown)

lemma grow_loop_preserves:
  assumes step: "\<And>t g. P t \<Longrightarrow> P (fst (snd (grow_one_level t g)))"
    and r: "grow_loop t g = Some r" and t: "P t"
  shows "P (fst (snd r))"
proof -
  have "P t \<longrightarrow> P (fst (snd r))"
  proof (rule grow_loop.raw_induct [where P = "\<lambda>t g r. P t \<longrightarrow> P (fst (snd r))", OF _ r])
    fix loop :: "tree \<Rightarrow> rand \<Rightarrow> (error option \<times> tree \<times> rand) option" and t g r
    assume ih: "\<And>t g r. loop t g = Some r \<Longrightarrow> P t \<longrightarrow> P (fst (snd r))"
      and body: "(if int (current_depth t) < max_depth (params t)
          then if is_exception (fst (grow_one_level t g)) then Some (grow_one_level t g)
               else loop (fst (snd (grow_one_level t g))) (snd (snd (grow_one_level t g)))
          else Some (None, t, g)) = Some r"
    show "P t \<longrightarrow> P (fst (snd r))"
    proof
      assume t: "P t"
      show "P (fst (snd r))"
      proof (cases "int (current_depth t) < max_depth (params t)")
        case False
        with body t show ?thesis by auto
      next
        case True
        show ?thesis
        proof (cases "is_exception (fst (grow_one_level t g))")
          case e: True
          with True body have "grow_one_level t g = r" by simp
          then show ?thesis using step [OF t, of g] by simp
        next
          case e: False
          with True body
          have "loop (fst (snd (grow_one_level t g))) (snd (snd (grow_one_level t g))) = Some r"
            by simp
          from ih [OF this] step [OF t, of g] show ?thesis by simp
        qed
      qed
    qed
  qed
  with t show ?thesis by simp
qed

lemma grow_loop_total:
  "branches t \<noteq> [] \<Longrightarrow> \<exists>r. grow_loop t g = Some r"
proof (induction "nat (max_depth (params t) - int (current_depth t))" arbitrary: t g
    rule: less_induct)
  case less
  show ?case
  proof (cases "int (current_depth t) < max_depth (params t)")
    case False
    then show ?thesis
      by (subst grow_loop.simps) simp
  next
    case True
    show ?thesis
    proof (cases t g rule: grow_one_level_cases)
      case empty
      with less.prems show ?thesis by simp
    next
      case max
      with True show ?thesis by simp
    next
      case (raised e)
      then show ?thesis
        by (subst grow_loop.simps) (auto simp: is_exception_def)
    next
      case (grown c)
      have "\<exists>r. grow_loop (grown t c g) (\<lambda>n. g (n + 4 * length (terminal t))) = Some r"
        using True less.prems by (intro less.hyps) (simp_all add: grown_fields)
      with True grown show ?thesis
        by (subst grow_loop.simps) (simp add: is_exception_def)
    qed
  qed
qed

lemma grow_full_tree_total: "\<exists>r. grow_full_tree t g = Some r"
  using grow_loop_total [of t g] by (cases "branches t = []") (simp_all add: grow_full_tree_def)

lemma tree_inv_grow_full_tree:
  assumes "tree_inv t" "grow_full_tree t g = Some r"
  shows "tree_inv (fst (snd r))"
proof (cases "branches t = []")
  case True
  with assms show ?thesis
    by (auto simp: grow_full_tree_def)
next
  case False
  with assms(2) have "grow_loop t g = Some r"
    by (simp add: grow_full_tree_def)
  from grow_loop_preserves [of tree_inv, OF tree_inv_grow_one_level this assms(1)]
  show ?thesis .
qed

lemma reachable_tree_inv: "reachable t \<Longrightarrow> tree_inv t"
  by (induction rule: reachable.induct)
    (simp_all add: tree_inv_init tree_inv_plant tree_inv_grow_one_level tree_inv_reset
      tree_inv_grow_full_tree)

lemma tree_inv_ids:
  assumes "tree_inv t" "i < length (branches t)"
  shows "b_id (branches t ! i) = i"
proof -
  from assms(1) have "map b_id (branches t) = [0..<length (branches t)]"
    by (simp add: tree_inv_def)
  from arg_cong [OF this, of "\<lambda>xs. xs ! i"] assms(2) show ?thesis
    by simp
qed

lemma tree_inv_linked:
  assumes "tree_inv t" "i < length (branches t)"
  shows "linked (branches t) i"
  using assms by (simp add: tree_inv_def list_all_iff)

lemma tree_inv_trunk:
  assumes "tree_inv t" "branches t \<noteq> []"
  shows "depth (hd (branches t)) = 0" "parent_id (hd (branches t)) = None"
proof -
  from assms(2) have 0: "0 < length (branches t)" "hd (branches t) = branches t ! 0"
    by (simp_all add: hd_conv_nth)
  from tree_inv_linked [OF assms(1) 0(1)]
  show "depth (hd (branches t)) = 0" "parent_id (hd (branches t)) = None"
    by (auto simp: linked_def 0(2) split: option.splits)
qed

lemma tree_inv_parent:
  assumes "tree_inv t" "i < length (branches t)" "0 < i"
  obtains j where "j < i" "parent_id (branches t ! i) = Some j"
    "b_id (branches t ! j) = j" "depth (branches t ! i) = Suc (depth (branches t ! j))"
proof -
  from tree_inv_linked [OF assms(1,2)] assms(3)
  obtain j where j: "j < i" "parent_id (branches t ! i) = Some j"
    "depth (branches t ! i) = Suc (depth (branches t ! j))"
    by (auto simp: linked_def split: option.splits)
  from j(1) assms(2) have "j < length (branches t)"
    by simp
  from tree_inv_ids [OF assms(1) this] j show ?thesis
    by (intro that [of j])
qed

lemma tree_inv_find:
  assumes "tree_inv t" "j < length (branches t)"
  shows "find (\<lambda>p. b_id p = j) (branches t) = Some (branches t ! j)"
proof -
  have "\<exists>i<length (branches t). b_id (branches t ! i) = j \<and> branches t ! j = branches t ! i \<and>
      (\<forall>k<i. b_id (branches t ! k) \<noteq> j)"
  proof (intro exI [of _ j] conjI allI impI)
    fix k assume "k < j"
    with assms(2) tree_inv_ids [OF assms(1), of k] show "b_id (branches t ! k) \<noteq> j"
      by simp
  qed (use assms tree_inv_ids in simp_all)
  then show ?thesis
    by (simp add: find_Some_iff)
qed

lemma tree_inv_climb:
  assumes "tree_inv t" "i < length (branches t)"
  shows "climb (branches t) (depth (branches t ! i)) (branches t ! i) = Some (branches t ! 0)"
  using assms(2)
proof (induction i rule: less_induct)
  case (less i)
  show ?case
  proof (cases "i = 0")
    case True
    with tree_inv_linked [OF assms(1) less.prems] show ?thesis
      by (auto simp: linked_def split: option.splits)
  next
    case False
    then have "0 < i" by simp
    from tree_inv_parent [OF assms(1) less.prems this]
    obtain j where j: "j < i" "parent_id (branches t ! i) = Some j"
      "depth (branches t ! i) = Suc (depth (branches t ! j))"
      by blast
    from j(1) less.prems have jl: "j < length (branches t)"
      by simp
    from less.IH [OF j(1) jl] show ?thesis
      by (simp add: j tree_inv_find [OF assms(1) jl])
  qed
qed

lemma tree_inv_one_trunk:
  assumes "tree_inv t" "branches t \<noteq> []"
  shows "length (filter (\<lambda>b. depth b = 0 \<and> parent_id b = None) (branches t)) = 1"
proof -
  from assms(2) obtain x xs where bs: "branches t = x # xs"
    by (cases "branches t") auto
  have "parent_id b \<noteq> None" if "b \<in> set xs" for b
  proof -
    from that obtain k where k: "k < length xs" "xs ! k = b"
      by (auto simp: in_set_conv_nth)
    then have "Suc k < length (branches t)" "0 < Suc k" "branches t ! Suc k = b"
      by (simp_all add: bs)
    from tree_inv_parent [OF assms(1) this(1,2)] this(3) show ?thesis
      by auto
  qed
  then have "filter (\<lambda>b. depth b = 0 \<and> parent_id b = None) xs = []"
    by (auto simp: filter_empty_conv)
  with tree_inv_trunk [OF assms] show ?thesis
    by (simp add: bs)
qed

subsection \<open>The example states\<close>

lemma default_fields:
  "trunk_color default_params = ''#7c2d12''" "base_length default_params = 180"
  "angle_variation default_params = 35" "length_factor default_params = 13 / 20"
  "max_depth default_params = 8" "trunk_thickness default_params = 20"
  "thickness_factor default_params = 3 / 4" "randomness default_params = 1 / 10"
  "upward_angle default_params = True"
  "leaf_colors default_params = [''#166534'', ''#22c55e'', ''#f59e0b'']"
  by (simp_all add: default_params_def)

lemma default_color_1: "get_branch_color default_params (Suc 0) = Inr ''#197d3e''"
  by code_simp

lemma planted_eval:
  "planted = \<lparr>params = default_params, click_count = 0, current_depth = 0,
     branches = [\<lparr>b_id = 0, parent_id = None, start = (600, 700), b_end = (600, 520), depth = 0,
       b_length = 180, angle = 270, thickness = 20, color = ''#7c2d12''\<rparr>],
     next_id = 1, tree_center = (600, 700)\<rparr>"
  by (simp add: planted_def plant_trunk_def init_def default_fields)

lemma example_ids: "map b_id (branches example_tree) = [0, 1, 2]"
  by (simp add: example_tree_def planted_eval grow_one_level_def new_branch_def random_py_def
      default_color_1 Let_def default_fields)

lemma example_angles: "map angle (branches example_tree) = [270, 235, 305]"
  by (simp add: example_tree_def planted_eval grow_one_level_def new_branch_def random_py_def
      default_color_1 Let_def default_fields)

lemma example_lengths: "map b_length (branches example_tree) = [180, 117, 117]"
  by (simp add: example_tree_def planted_eval grow_one_level_def new_branch_def random_py_def
      default_color_1 Let_def default_fields)

lemma example_parents: "map parent_id (branches example_tree) = [None, Some 0, Some 0]"
  by (simp add: example_tree_def planted_eval grow_one_level_def new_branch_def random_py_def
      default_color_1 Let_def default_fields)

lemma example_depths: "map depth (branches example_tree) = [0, 1, 1]"
  by (simp add: example_tree_def planted_eval grow_one_level_def new_branch_def random_py_def
      default_color_1 Let_def default_fields)

lemma example_reachable: "reachable example_tree"
  unfolding example_tree_def planted_def by (intro reachable.intros)

lemma planted_grows: "fst (grow_one_level planted (\<lambda>_. 1 / 2)) = None"
  by (simp add: planted_eval grow_one_level_def new_branch_def random_py_def
      default_color_1 Let_def default_fields)

lemma planted_terminal:
  "terminal planted = [\<lparr>b_id = 0, parent_id = None, start = (600, 700), b_end = (600, 520),
     depth = 0, b_length = 180, angle = 270, thickness = 20, color = ''#7c2d12''\<rparr>]"
  by (simp add: planted_eval terminal_def)

lemma valid_default: "valid_palette default_params"
  by (simp add: valid_palette_def hex_color_def hex_val_def default_fields)

lemma palette_index_in_range:
  assumes "valid_palette ps" "0 < d" "int d < max_depth ps"
  shows "nat \<lfloor>real d / real_of_int (max_depth ps) * real (length (leaf_colors ps) - 1)\<rfloor>
    < length (leaf_colors ps)"
proof -
  from assms(1) have ne: "leaf_colors ps \<noteq> []"
    by (simp add: valid_palette_def)
  then have n: "0 < length (leaf_colors ps)"
    by simp
  have e: "real (length (leaf_colors ps) - 1) = real_of_int (int (length (leaf_colors ps)) - 1)"
    using ne by (cases "leaf_colors ps") simp_all
  from palette_position(2,3) [OF assms(2,3) n] show ?thesis
    unfolding e by linarith
qed

lemma hex_color_encode_rgb:
  assumes "hex_color c"
  shows "hex_color (encode_rgb (channels c))"
proof -
  obtain r g b where k: "channels c = (r, g, b)"
    by (cases "channels c") auto
  note n = channels_range [OF assms, unfolded k fst_conv snd_conv]
  have "nat r div 16 < 16" "nat r mod 16 < 16" "nat g div 16 < 16" "nat g mod 16 < 16"
    "nat b div 16 < 16" "nat b mod 16 < 16"
    using n by simp_all
  then show ?thesis
    by (simp add: k encode_rgb_def hex2_def hex_color_def hex_val_hex_char)
qed

subsection \<open>Counting generations\<close>

lemma get_branch_color_ok:
  assumes "valid_palette ps"
  obtains c where "get_branch_color ps d = Inr c"
  using get_branch_color_spec [OF assms] by blast

lemma level_inv_plant: "level_inv 0 (plant_trunk x y t)"
  by (simp add: level_inv_def plant_trunk_def Let_def split: prod.splits)

lemma depth_children:
  "filter (\<lambda>b. depth b = j) (children ps cur c parents nid g) =
     (if j = Suc cur then children ps cur c parents nid g else [])"
  using children_parent [of _ ps cur c parents nid g]
  by (auto simp: filter_id_conv filter_empty_conv)

lemma level_inv_grown:
  assumes "level_inv k t"
  shows "level_inv (Suc k) (grown t c g)"
proof -
  from assms have k: "current_depth t = k" and n: "length (branches t) = 2 ^ Suc k - 1"
    and f: "\<And>j. length (filter (\<lambda>b. depth b = j) (branches t)) = (if j \<le> k then 2 ^ j else 0)"
    by (simp_all add: level_inv_def)
  have t: "length (terminal t) = 2 ^ k"
    using f [of k] by (simp add: terminal_def k)
  have "(2::nat) ^ Suc k - 1 + 2 * 2 ^ k = 2 ^ Suc (Suc k) - 1"
    by simp
  moreover have "length (filter (\<lambda>b. depth b = j)
        (branches t @ children (params t) k c (terminal t) (next_id t) g))
      = (if j \<le> Suc k then 2 ^ j else 0)" for j
    by (cases "j = Suc k") (auto simp: f t length_children depth_children le_Suc_eq)
  ultimately show ?thesis
    unfolding level_inv_def grown_def
    by (simp add: k n t length_children)
qed

lemma grow_one_level_valid:
  assumes "valid_palette (params t)" "branches t \<noteq> []"
    "int (current_depth t) < max_depth (params t)"
  obtains c where
    "grow_one_level t g = (None, grown t c g, \<lambda>n. g (n + 4 * length (terminal t)))"
proof -
  from get_branch_color_ok [OF assms(1)] obtain c
    where "get_branch_color (params t) (Suc (current_depth t)) = Inr c" .
  from grow_one_level_ok [OF assms(2,3) this] show ?thesis
    by (intro that [of c]) (simp add: grown_def)
qed

lemma grow_times_levels:
  assumes "valid_palette (params t)" "level_inv k t" "int (k + n) \<le> max_depth (params t)"
  shows "fst (grow_times n t g) = None \<and> level_inv (k + n) (fst (snd (grow_times n t g)))"
  using assms
proof (induction n arbitrary: t g k)
  case 0
  then show ?case by simp
next
  case (Suc n)
  from Suc.prems(2) have "length (branches t) = 2 ^ Suc k - 1" and k: "current_depth t = k"
    by (simp_all add: level_inv_def)
  moreover have "1 \<le> (2::nat) ^ k"
    by (rule one_le_power) simp
  ultimately have "0 < length (branches t)"
    by (simp only: power_Suc)
  then have ne: "branches t \<noteq> []"
    by simp
  from Suc.prems(3) k have "int (current_depth t) < max_depth (params t)"
    by simp
  from grow_one_level_valid [OF Suc.prems(1) ne this] obtain c where
    g: "grow_one_level t g = (None, grown t c g, \<lambda>n. g (n + 4 * length (terminal t)))" .
  have "fst (grow_times n (grown t c g) (\<lambda>n. g (n + 4 * length (terminal t)))) = None \<and>
    level_inv (Suc k + n) (fst (snd (grow_times n (grown t c g) (\<lambda>n. g (n + 4 * length (terminal t))))))"
    using Suc.prems by (intro Suc.IH level_inv_grown) (simp_all add: grown_fields)
  then show ?case
    by (simp add: g)
qed

lemma sum_powers_of_two: "(\<Sum>k\<le>d. (2::nat) ^ k) = 2 ^ Suc d - 1"
  by (induction d) simp_all

subsection \<open>Runs without randomness\<close>

lemma child_no_jitter:
  "randomness ps = 0 \<Longrightarrow> child ps cur c p off u u2 nid = child ps cur c p off u' u2' nid"
  by (simp add: child_def)

lemma children_no_jitter:
  "randomness ps = 0 \<Longrightarrow>
   children ps cur c parents nid g = children ps cur c parents nid g'"
proof (induction parents arbitrary: nid g g')
  case Nil
  then show ?case by simp
next
  case (Cons p rest)
  from Cons.IH [OF Cons.prems, of "nid + 2" "\<lambda>n. g (n + 4)" "\<lambda>n. g' (n + 4)"]
    child_no_jitter [OF Cons.prems, of cur c p _ "g 0" "g 1" _ "g' 0" "g' 1"]
    child_no_jitter [OF Cons.prems, of cur c p _ "g 2" "g 3" _ "g' 2" "g' 3"]
  show ?case
    by simp
qed

lemma grown_no_jitter: "randomness (params t) = 0 \<Longrightarrow> grown t c g = grown t c g'"
  using children_no_jitter [of "params t" "current_depth t" c "terminal t" "next_id t" g g']
  by (simp add: grown_def)

lemma grow_one_level_params: "params (fst (snd (grow_one_level t g))) = params t"
  by (cases t g rule: grow_one_level_cases) (simp_all add: grown_fields)

lemma grow_one_level_no_jitter:
  assumes "randomness (params t) = 0"
  shows "fst (grow_one_level t g) = fst (grow_one_level t g')"
    "fst (snd (grow_one_level t g)) = fst (snd (grow_one_level t g'))"
proof -
  consider "branches t = []"
    | "branches t \<noteq> []" "max_depth (params t) \<le> int (current_depth t)"
    | c where "branches t \<noteq> []" "int (current_depth t) < max_depth (params t)"
        "get_branch_color (params t) (Suc (current_depth t)) = Inr c"
    | e where "branches t \<noteq> []" "int (current_depth t) < max_depth (params t)"
        "get_branch_color (params t) (Suc (current_depth t)) = Inl e" "terminal t \<noteq> []"
    | e where "branches t \<noteq> []" "int (current_depth t) < max_depth (params t)"
        "get_branch_color (params t) (Suc (current_depth t)) = Inl e" "terminal t = []"
    by (cases "get_branch_color (params t) (Suc (current_depth t))") fastforce+
  then have "fst (grow_one_level t g) = fst (grow_one_level t g') \<and>
    fst (snd (grow_one_level t g)) = fst (snd (grow_one_level t g'))"
  proof cases
    case 1
    then show ?thesis by (simp add: grow_one_level_empty)
  next
    case 2
    then show ?thesis by (simp add: grow_one_level_max)
  next
    case 3
    with grown_no_jitter [OF assms, of c g g'] show ?thesis
      by (simp add: grow_one_level_ok grown_def)
  next
    case 4
    then show ?thesis by (simp add: grow_one_level_raise)
  next
    case 5
    then show ?thesis by (simp add: grow_one_level_no_parent)
  qed
  then show "fst (grow_one_level t g) = fst (grow_one_level t g')"
    "fst (snd (grow_one_level t g)) = fst (snd (grow_one_level t g'))"
    by simp_all
qed

lemma grow_loop_no_jitter:
  assumes r: "grow_loop t g = Some r"
  shows "randomness (params t) = 0 \<longrightarrow>
    (\<forall>g' r'. grow_loop t g' = Some r' \<longrightarrow> fst r' = fst r \<and> fst (snd r') = fst (snd r))"
proof (rule grow_loop.raw_induct [where P = "\<lambda>t g r. randomness (params t) = 0 \<longrightarrow>
    (\<forall>g' r'. grow_loop t g' = Some r' \<longrightarrow> fst r' = fst r \<and> fst (snd r') = fst (snd r))", OF _ r])
  fix loop :: "tree \<Rightarrow> rand \<Rightarrow> (error option \<times> tree \<times> rand) option" and t g r
  assume ih: "\<And>t g r. loop t g = Some r \<Longrightarrow> randomness (params t) = 0 \<longrightarrow>
      (\<forall>g' r'. grow_loop t g' = Some r' \<longrightarrow> fst r' = fst r \<and> fst (snd r') = fst (snd r))"
    and body: "(if int (current_depth t) < max_depth (params t)
        then if is_exception (fst (grow_one_level t g)) then Some (grow_one_level t g)
             else loop (fst (snd (grow_one_level t g))) (snd (snd (grow_one_level t g)))
        else Some (None, t, g)) = Some r"
  show "randomness (params t) = 0 \<longrightarrow>
    (\<forall>g' r'. grow_loop t g' = Some r' \<longrightarrow> fst r' = fst r \<and> fst (snd r') = fst (snd r))"
  proof (intro impI allI)
    fix g' r'
    assume z: "randomness (params t) = 0" and r': "grow_loop t g' = Some r'"
    note d = grow_one_level_no_jitter [OF z, of g' g]
    show "fst r' = fst r \<and> fst (snd r') = fst (snd r)"
    proof (cases "int (current_depth t) < max_depth (params t)")
      case False
      with body r' show ?thesis
        by (subst (asm) grow_loop.simps) auto
    next
      case True
      show ?thesis
      proof (cases "is_exception (fst (grow_one_level t g))")
        case e: True
        with True body have "grow_one_level t g = r" by simp
        moreover from e True r' d have "grow_one_level t g' = r'"
          by (subst (asm) grow_loop.simps) simp
        ultimately show ?thesis
          using d by auto
      next
        case e: False
        with True body
        have l: "loop (fst (snd (grow_one_level t g))) (snd (snd (grow_one_level t g))) = Some r"
          by simp
        from e True r' d
        have "grow_loop (fst (snd (grow_one_level t g))) (snd (snd (grow_one_level t g'))) = Some r'"
          by (subst (asm) grow_loop.simps) simp
        moreover have "randomness (params (fst (snd (grow_one_level t g)))) = 0"
          using z by (simp add: grow_one_level_params)
        ultimately show ?thesis
          using ih [OF l] by blast
      qed
    qed
  qed
qed

lemma grow_loop_params:
  assumes "grow_loop t g = Some r"
  shows "params (fst (snd r)) = params t"
  using grow_loop_preserves [of "\<lambda>s. params s = params t", OF _ assms]
  by (simp add: grow_one_level_params)

lemma grow_full_tree_params:
  assumes "grow_full_tree t g = Some r"
  shows "params (fst (snd r)) = params t"
  using assms grow_loop_params [of t g r]
  by (cases "branches t = []") (auto simp: grow_full_tree_def)

lemma grow_full_tree_no_jitter:
  assumes "randomness (params t) = 0" "grow_full_tree t g = Some r" "grow_full_tree t g' = Some r'"
  shows "fst (snd r') = fst (snd r)"
proof (cases "branches t = []")
  case True
  with assms show ?thesis
    by (auto simp: grow_full_tree_def)
next
  case False
  with assms have "grow_loop t g = Some r" "grow_loop t g' = Some r'"
    by (simp_all add: grow_full_tree_def)
  with grow_loop_no_jitter [of t g r] assms(1) show ?thesis
    by blast
qed

lemma run_no_jitter:
  "randomness (params t) = 0 \<Longrightarrow>
   run cs t g \<noteq> None \<and> map_option fst (run cs t g) = map_option fst (run cs t g')"
proof (induction cs arbitrary: t g g')
  case Nil
  then show ?case by simp
next
  case (Cons c cs)
  show ?case
  proof (cases c)
    case (PlantTrunk x y)
    have "randomness (params (plant_trunk x y t)) = 0"
      using Cons.prems by (simp add: plant_trunk_def Let_def split: prod.splits)
    from Cons.IH [OF this] show ?thesis
      by (simp add: PlantTrunk)
  next
    case GrowOneLevel
    have "randomness (params (fst (snd (grow_one_level t g)))) = 0"
      using Cons.prems by (simp add: grow_one_level_params)
    from Cons.IH [OF this] show ?thesis
      by (simp add: GrowOneLevel grow_one_level_no_jitter(2) [OF Cons.prems, of g' g])
  next
    case GrowFullTree
    from grow_full_tree_total [of t g] obtain r where r: "grow_full_tree t g = Some r"
      by blast
    from grow_full_tree_total [of t g'] obtain r' where r': "grow_full_tree t g' = Some r'"
      by blast
    have e: "fst (snd r') = fst (snd r)"
      using Cons.prems r r' by (rule grow_full_tree_no_jitter)
    have "randomness (params (fst (snd r))) = 0"
      using Cons.prems grow_full_tree_params [OF r] by simp
    from Cons.IH [OF this] show ?thesis
      by (simp add: GrowFullTree r r' e)
  next
    case ResetTree
    have "randomness (params (reset_tree t)) = 0"
      using Cons.prems by (simp add: reset_tree_def)
    from Cons.IH [OF this] show ?thesis
      by (simp add: ResetTree)
  qed
qed

subsection \<open>Rounding to double precision\<close>

text \<open>
  A double lies between any two integers that its argument lies between, so integers below
  \<open>2 ^ 53\<close> are doubles.
\<close>

declare bit_length.simps [simp del]

lemma bit_length_0: "bit_length 0 = 0"
  by (subst bit_length.simps) simp

lemma bit_length_le: "n < 2 ^ k \<Longrightarrow> bit_length n \<le> k"
proof (induction k arbitrary: n)
  case 0
  then show ?case by (simp add: bit_length_0)
next
  case (Suc k)
  show ?case
  proof (cases "n = 0")
    case True
    then show ?thesis by (simp add: bit_length_0)
  next
    case False
    from Suc.prems have "n div 2 < 2 ^ k" by simp
    from Suc.IH [OF this] False show ?thesis
      by (simp add: bit_length.simps [of n])
  qed
qed

lemma floor_log2_le:
  assumes "0 < a" "a < 2 ^ 53"
  shows "floor_log2 a \<le> 52"
proof (cases "1 \<le> a")
  case True
  have "real (nat \<lfloor>a\<rfloor>) \<le> a"
    using assms(1) by simp
  with assms(2) have "real (nat \<lfloor>a\<rfloor>) < real (2 ^ 53)"
    by simp
  then have "nat \<lfloor>a\<rfloor> < 2 ^ 53"
    by (simp only: of_nat_less_iff)
  from bit_length_le [OF this] True show ?thesis
    by (simp add: floor_log2_def)
next
  case False
  then show ?thesis
    by (simp add: floor_log2_def)
qed

lemma round_half_even_bounds:
  assumes "real_of_int j \<le> y" "y \<le> real_of_int k"
  shows "j \<le> round_half_even y" "round_half_even y \<le> k"
proof -
  have f: "j \<le> \<lfloor>y\<rfloor>" "\<lfloor>y\<rfloor> \<le> k"
    using assms by (simp_all add: le_floor_iff floor_le_iff)
  have "\<lfloor>y\<rfloor> < k" if "real_of_int \<lfloor>y\<rfloor> < y"
    using that assms(2) by linarith
  then have u: "\<lfloor>y\<rfloor> + 1 \<le> k" if "1 / 2 \<le> y - real_of_int \<lfloor>y\<rfloor>"
    using that by simp
  show "j \<le> round_half_even y"
    using f(1) by (simp add: round_half_even_def Let_def)
  show "round_half_even y \<le> k"
    using f(2) u by (auto simp: round_half_even_def Let_def)
qed

lemma double_0: "double 0 = 0"
  by (simp add: double_def)

lemma double_minus: "double (- x) = - double x"
  by (simp add: double_def Let_def sgn_minus)

lemma double_pos:
  assumes "0 < x" "x < 2 ^ 53"
  shows "\<exists>j. double x = real_of_int (round_half_even (x * 2 ^ j)) / 2 ^ j"
proof -
  define q where "q = max (floor_log2 x - 52) (- 1074)"
  have q: "q \<le> 0"
    using floor_log2_le [OF assms] by (simp add: q_def)
  have d: "double x =
      (if 0 \<le> q then real_of_int (round_half_even (x / 2 ^ nat q)) * 2 ^ nat q
       else real_of_int (round_half_even (x * 2 ^ nat (- q))) / 2 ^ nat (- q))"
    using assms(1) by (simp add: double_def Let_def q_def)
  show ?thesis
  proof (cases "q = 0")
    case True
    with d have "double x = real_of_int (round_half_even (x * 2 ^ 0)) / 2 ^ 0"
      by simp
    then show ?thesis ..
  next
    case False
    with q d have "double x = real_of_int (round_half_even (x * 2 ^ nat (- q))) / 2 ^ nat (- q)"
      by simp
    then show ?thesis ..
  qed
qed

lemma double_bounds_pos:
  assumes "0 < x" "x < 2 ^ 53" "real_of_int a \<le> x" "x \<le> real_of_int b"
  shows "real_of_int a \<le> double x \<and> double x \<le> real_of_int b"
proof -
  from double_pos [OF assms(1,2)] obtain j where
    d: "double x = real_of_int (round_half_even (x * 2 ^ j)) / 2 ^ j" ..
  have "real_of_int (a * 2 ^ j) \<le> x * 2 ^ j" "x * 2 ^ j \<le> real_of_int (b * 2 ^ j)"
    using assms(3,4) by simp_all
  from round_half_even_bounds [OF this]
  have "real_of_int (a * 2 ^ j) \<le> real_of_int (round_half_even (x * 2 ^ j))"
    "real_of_int (round_half_even (x * 2 ^ j)) \<le> real_of_int (b * 2 ^ j)"
    by (simp_all only: of_int_le_iff)
  then show ?thesis
    unfolding d by (simp add: field_simps)
qed

lemma double_bounds:
  assumes "\<bar>x\<bar> < 2 ^ 53" "real_of_int a \<le> x" "x \<le> real_of_int b"
  shows "real_of_int a \<le> double x" "double x \<le> real_of_int b"
proof -
  consider "x = 0" | "0 < x" | "x < 0"
    by linarith
  then have "real_of_int a \<le> double x \<and> double x \<le> real_of_int b"
  proof cases
    case 1
    with assms show ?thesis by (simp add: double_0)
  next
    case 2
    with assms show ?thesis by (intro double_bounds_pos) simp_all
  next
    case 3
    with assms have "real_of_int (- b) \<le> double (- x) \<and> double (- x) \<le> real_of_int (- a)"
      by (intro double_bounds_pos) simp_all
    then show ?thesis
      by (simp add: double_minus)
  qed
  then show "real_of_int a \<le> double x" "double x \<le> real_of_int b"
    by simp_all
qed

lemma double_of_int:
  assumes "\<bar>k\<bar> < 2 ^ 53"
  shows "double (real_of_int k) = real_of_int k"
proof -
  from assms have "\<bar>real_of_int k\<bar> < 2 ^ 53"
    by (metis of_int_abs of_int_less_numeral_power_cancel_iff)
  from double_bounds [OF this, of k k] show ?thesis
    by simp
qed

subsection \<open>The colour in double precision\<close>

lemma float_of_int_small: "\<bar>k\<bar> < 2 ^ 53 \<Longrightarrow> float_of_int k = real_of_int k"
  by (simp add: float_of_int_def double_of_int)

lemma double_lerp_range:
  assumes a: "0 \<le> a" "a \<le> 255" and b: "0 \<le> b" "b \<le> 255" and f: "0 \<le> f" "f \<le> 1"
  shows "0 \<le> double_lerp a b f" "double_lerp a b f \<le> 255"
proof -
  define t where "t = double (real_of_int (b - a) * f)"
  have s: "\<bar>real_of_int (b - a) * f\<bar> < 2 ^ 53"
  proof -
    have "\<bar>real_of_int (b - a) * f\<bar> \<le> \<bar>real_of_int (b - a)\<bar> * 1"
      unfolding abs_mult using f by (intro mult_left_mono) simp_all
    also have "\<dots> \<le> 255"
      using a b by simp
    finally show ?thesis by simp
  qed
  have t: "real_of_int (min a b) \<le> real_of_int a + t \<and> real_of_int a + t \<le> real_of_int (max a b)"
  proof (cases "a \<le> b")
    case True
    then have "real_of_int 0 \<le> real_of_int (b - a) * f" "real_of_int (b - a) * f \<le> real_of_int (b - a)"
      using f by (simp_all add: mult_left_le)
    from double_bounds [OF s this] True show ?thesis
      by (simp add: t_def)
  next
    case False
    then have n: "real_of_int (b - a) \<le> 0"
      by simp
    have "real_of_int (b - a) * 1 \<le> real_of_int (b - a) * f"
      using f(2) n by (rule mult_left_mono_neg)
    moreover have "real_of_int (b - a) * f \<le> 0"
      using n f(1) by (simp add: mult_le_0_iff)
    ultimately have "real_of_int (b - a) \<le> real_of_int (b - a) * f"
      "real_of_int (b - a) * f \<le> real_of_int 0"
      by simp_all
    from double_bounds [OF s this] False show ?thesis
      by (simp add: t_def)
  qed
  with a b have r: "real_of_int 0 \<le> real_of_int a + t" "real_of_int a + t \<le> real_of_int 255"
    by (simp_all add: min_def max_def split: if_splits)
  then have "\<bar>real_of_int a + t\<bar> < 2 ^ 53"
    by simp
  from double_bounds [OF this r] have d: "0 \<le> double (real_of_int a + t)"
    "double (real_of_int a + t) \<le> 255"
    by simp_all
  have l: "double_lerp a b f = \<lfloor>double (real_of_int a + t)\<rfloor>"
    unfolding double_lerp_def py_int_def t_def [symmetric] using d(1) by (simp only: if_True)
  show "0 \<le> double_lerp a b f"
    unfolding l using d(1) by (rule iffD2 [OF zero_le_floor])
  show "double_lerp a b f \<le> 255"
    unfolding l using of_int_floor_le [of "double (real_of_int a + t)"] d(2) by linarith
qed

lemma interpolate_color_double_mix:
  assumes c1: "hex_color c1" and c2: "hex_color c2" and f: "0 \<le> f" "f \<le> 1"
  shows "interpolate_color_double c1 c2 f = Inr (double_mix c1 c2 f)"
proof -
  obtain r1 g1 b1 where k1: "channels c1 = (r1, g1, b1)"
    by (cases "channels c1") auto
  obtain r2 g2 b2 where k2: "channels c2 = (r2, g2, b2)"
    by (cases "channels c2") auto
  note s1 = int16_slices [OF c1, unfolded k1 fst_conv snd_conv]
  note s2 = int16_slices [OF c2, unfolded k2 fst_conv snd_conv]
  note n1 = channels_range [OF c1, unfolded k1 fst_conv snd_conv]
  note n2 = channels_range [OF c2, unfolded k2 fst_conv snd_conv]
  have "\<bar>r1\<bar> < 2 ^ 53" "\<bar>g1\<bar> < 2 ^ 53" "\<bar>b1\<bar> < 2 ^ 53"
    "\<bar>r2 - r1\<bar> < 2 ^ 53" "\<bar>g2 - g1\<bar> < 2 ^ 53" "\<bar>b2 - b1\<bar> < 2 ^ 53"
    using n1 n2 by simp_all
  note i = this [THEN float_of_int_small]
  have "fmt02x (double_lerp r1 r2 f) = hex2 (double_lerp r1 r2 f)"
    "fmt02x (double_lerp g1 g2 f) = hex2 (double_lerp g1 g2 f)"
    "fmt02x (double_lerp b1 b2 f) = hex2 (double_lerp b1 b2 f)"
    using n1 n2 f by (simp_all add: fmt02x_hex2 double_lerp_range)
  then show ?thesis
    unfolding interpolate_color_double_def s1 s2 sum.case i
    by (simp add: double_mix_def k1 k2 encode_rgb_def Let_def double_lerp_def)
qed

lemma double_position:
  fixes d :: nat and m :: int and n :: nat
  assumes d: "0 < d" "int d < m" and n: "0 < n" "n < 2 ^ 53"
  defines "pos \<equiv> double (double (real d / real_of_int m) * float_of_int (int n - 1))"
  shows "pos = double (double (real d / real_of_int m) * real (n - 1))"
    "py_int pos = \<lfloor>pos\<rfloor>" "0 \<le> \<lfloor>pos\<rfloor>" "\<lfloor>pos\<rfloor> < int n"
    "float_of_int \<lfloor>pos\<rfloor> = real_of_int \<lfloor>pos\<rfloor>"
    "0 \<le> double (pos - real_of_int \<lfloor>pos\<rfloor>)" "double (pos - real_of_int \<lfloor>pos\<rfloor>) \<le> 1"
proof -
  define p where "p = double (real d / real_of_int m)"
  have m: "0 < real_of_int m" "real d < real_of_int m"
    using d by linarith+
  then have q: "real_of_int 0 \<le> real d / real_of_int m" "real d / real_of_int m \<le> real_of_int 1"
    by simp_all
  then have "\<bar>real d / real_of_int m\<bar> < 2 ^ 53"
    by simp
  from double_bounds [OF this q] have p: "0 \<le> p" "p \<le> 1"
    by (simp_all add: p_def)
  have k: "\<bar>int n - 1\<bar> < 2 ^ 53"
    using n by simp
  have e: "float_of_int (int n - 1) = real (n - 1)"
    using n(1) by (simp add: float_of_int_small [OF k] of_nat_diff)
  show pe: "pos = double (double (real d / real_of_int m) * real (n - 1))"
    by (simp only: pos_def e)
  have b: "real_of_int 0 \<le> p * real (n - 1)" "p * real (n - 1) \<le> real_of_int (int n - 1)"
    using p n(1) by (simp_all add: mult_left_le_one_le of_nat_diff)
  have "real_of_int (int n - 1) < 2 ^ 53"
    using n(2) by simp
  with b(2) have "p * real (n - 1) < 2 ^ 53"
    by (rule le_less_trans)
  with b(1) have "\<bar>p * real (n - 1)\<bar> < 2 ^ 53"
    by simp
  have pp: "double (p * real (n - 1)) = pos"
    by (simp only: pe p_def)
  from double_bounds [OF \<open>\<bar>p * real (n - 1)\<bar> < 2 ^ 53\<close> b, unfolded pp]
  have lo: "0 \<le> pos" and hi: "pos \<le> real_of_int (int n - 1)"
    by simp_all
  show "py_int pos = \<lfloor>pos\<rfloor>"
    using lo by (simp add: py_int_def)
  show f0: "0 \<le> \<lfloor>pos\<rfloor>"
    using lo by simp
  show f1: "\<lfloor>pos\<rfloor> < int n"
    using hi of_int_floor_le [of pos] by linarith
  have "int n < 2 ^ 53"
    using n(2) by simp
  with f1 have "\<lfloor>pos\<rfloor> < 2 ^ 53"
    by (rule less_trans)
  with f0 have "\<bar>\<lfloor>pos\<rfloor>\<bar> < 2 ^ 53"
    by (simp only: abs_of_nonneg)
  then show "float_of_int \<lfloor>pos\<rfloor> = real_of_int \<lfloor>pos\<rfloor>"
    by (rule float_of_int_small)
  have fr: "real_of_int 0 \<le> pos - real_of_int \<lfloor>pos\<rfloor>" "pos - real_of_int \<lfloor>pos\<rfloor> \<le> real_of_int 1"
    by simp_all linarith+
  then have "\<bar>pos - real_of_int \<lfloor>pos\<rfloor>\<bar> < 2 ^ 53"
    by simp
  from double_bounds [OF this fr]
  show "0 \<le> double (pos - real_of_int \<lfloor>pos\<rfloor>)" "double (pos - real_of_int \<lfloor>pos\<rfloor>) \<le> 1"
    by simp_all
qed

lemma get_branch_color_double_spec:
  assumes "valid_palette ps" "length (leaf_colors ps) < 2 ^ 53"
  shows "get_branch_color_double ps d = Inr (double_color_at ps d)"
proof -
  let ?lc = "leaf_colors ps"
  let ?n = "length ?lc"
  from assms have ne: "?lc \<noteq> []" and hex: "\<And>i. i < ?n \<Longrightarrow> hex_color (?lc ! i)"
    by (simp_all add: valid_palette_def list_all_length)
  from ne have n: "0 < ?n"
    by simp
  consider "d = 0" | "0 < d" "max_depth ps \<le> int d" | "0 < d" "int d < max_depth ps"
    by linarith
  then show ?thesis
  proof cases
    case 1
    then show ?thesis
      by (simp add: get_branch_color_double_def double_color_at_def)
  next
    case 2
    then show ?thesis
      by (simp add: get_branch_color_double_def double_color_at_def py_index_last [OF ne])
  next
    case 3
    define pos where
      "pos = double (double (real d / real_of_int (max_depth ps)) * float_of_int (int ?n - 1))"
    define lo where "lo = nat \<lfloor>pos\<rfloor>"
    define up where "up = min (lo + 1) (?n - 1)"
    note pp = double_position [OF 3 n assms(2), folded pos_def]
    have lo: "lo < ?n" "\<lfloor>pos\<rfloor> = int lo"
      using pp(3,4) unfolding lo_def by linarith+
    have up: "up < ?n" "min (\<lfloor>pos\<rfloor> + 1) (int ?n - 1) = int up"
      using n lo unfolding up_def min_def by (simp_all, linarith+)
    have code: "get_branch_color_double ps d =
        interpolate_color_double (?lc ! lo) (?lc ! up) (double (pos - real lo))"
      using 3 unfolding get_branch_color_double_def Let_def pos_def [symmetric] pp(2) up(2) pp(5)
      unfolding lo(2) py_index_nth [OF lo(1)] py_index_nth [OF up(1)]
      by simp
    have spec: "double_color_at ps d = double_mix (?lc ! lo) (?lc ! up) (double (pos - real lo))"
      using 3 unfolding double_color_at_def Let_def pp(1) [symmetric]
      by (simp add: lo_def up_def)
    have "0 \<le> double (pos - real lo)" "double (pos - real lo) \<le> 1"
      using pp(6,7) by (simp_all add: lo(2))
    then show ?thesis
      unfolding code spec by (intro interpolate_color_double_mix hex lo up)
  qed
qed


lemma double_lerp_same:
  assumes "0 \<le> a" "a \<le> 255"
  shows "double_lerp a a f = a"
proof -
  from assms have "\<bar>a\<bar> < 2 ^ 53"
    by simp
  then show ?thesis
    by (simp add: double_lerp_def double_0 double_of_int py_int_def)
qed

lemma double_mix_same:
  assumes "hex_color c"
  shows "double_mix c c f = encode_rgb (channels c)"
proof -
  obtain r g b where k: "channels c = (r, g, b)"
    by (cases "channels c") auto
  note n = channels_range [OF assms, unfolded k fst_conv snd_conv]
  show ?thesis
    by (simp add: double_mix_def k double_lerp_same n)
qed

lemma single_palette_double:
  assumes "leaf_colors ps = [c]" "hex_color c" "0 < d"
  shows "double_color_at ps d = (if max_depth ps \<le> int d then c else encode_rgb (channels c))"
  using assms by (simp add: double_color_at_def double_mix_same double_0 Let_def)





lemma upper_double: "get_branch_color_double upper_params 1 = Inr ''#22c55e''"
  by code_simp

section \<open>Properties\<close>

subsection \<open>Thickness\<close>

text \<open>
  Claim C6. \<open>calculate_thickness\<close> at depth \<open>d\<close> is the larger of 1 and
  \<open>trunk_thickness * thickness_factor ^ d\<close>; it is never below 1; and when
  \<open>0 < thickness_factor < 1\<close> and \<open>trunk_thickness > 0\<close> it does not increase with depth.
\<close>

theorem calculate_thickness_decay:
  "calculate_thickness ps d = max 1 (trunk_thickness ps * thickness_factor ps ^ d) \<and>
   1 \<le> calculate_thickness ps d \<and>
   (0 < thickness_factor ps \<and> thickness_factor ps < 1 \<and> 0 < trunk_thickness ps \<and> d \<le> d'
      \<longrightarrow> calculate_thickness ps d' \<le> calculate_thickness ps d)"
proof -
  have mono: "calculate_thickness ps d' \<le> calculate_thickness ps d"
    if f: "0 < thickness_factor ps" "thickness_factor ps < 1"
      and b: "0 < trunk_thickness ps" and le: "d \<le> d'"
  proof -
    have "thickness_factor ps ^ d' \<le> thickness_factor ps ^ d"
      using f le by (intro power_decreasing) simp_all
    then have "trunk_thickness ps * thickness_factor ps ^ d'
        \<le> trunk_thickness ps * thickness_factor ps ^ d"
      using b by (intro mult_left_mono) simp_all
    then show ?thesis
      by (simp add: calculate_thickness_def Let_def max_def)
  qed
  show ?thesis
    using mono by (simp add: calculate_thickness_def Let_def)
qed

theorem calculate_thickness_decay_witness:
  "calculate_thickness default_params 1 = 15 \<and>
   calculate_thickness default_params 2 = 45 / 4 \<and>
   calculate_thickness default_params 11 = 1 \<and>
   calculate_thickness default_params 2 \<le> calculate_thickness default_params 1"
proof -
  have "calculate_thickness default_params 2 \<le> calculate_thickness default_params 1"
    using calculate_thickness_decay [of default_params 1 2]
    by (simp add: default_params_def)
  moreover have "calculate_thickness default_params 1 = 15"
    "calculate_thickness default_params 2 = 45 / 4"
    "calculate_thickness default_params 11 = 1"
    by (simp_all add: calculate_thickness_def default_params_def Let_def power_divide)
  ultimately show ?thesis by simp
qed

subsection \<open>Planting the trunk\<close>

text \<open>
  Claim C3. \<open>plant_trunk x y\<close> always returns a state (it has no failing path): the depth
  counter is 0, the planting point is recorded, and the branch collection is exactly the
  trunk, with id 0, no parent, depth 0, start \<open>(x, y)\<close>, end \<open>(x, y - base_length)\<close> and
  angle 270 when growing upward, end \<open>(x, y + base_length)\<close> and angle 90 otherwise, length
  \<open>base_length\<close>, thickness \<open>trunk_thickness\<close> and colour \<open>trunk_color\<close>. The identifier
  counter, reset to 0 and used for the trunk, is left at 1. Nothing else of the state
  changes.
\<close>

theorem plant_trunk_result:
  "plant_trunk x y t =
     t\<lparr>current_depth := 0, next_id := 1, tree_center := (x, y),
       branches :=
         [\<lparr>b_id = 0, parent_id = None, start = (x, y),
           b_end = (x, if upward_angle (params t) then y - base_length (params t)
                       else y + base_length (params t)),
           depth = 0, b_length = base_length (params t),
           angle = (if upward_angle (params t) then 270 else 90),
           thickness = trunk_thickness (params t), color = trunk_color (params t)\<rparr>]\<rparr>"
  by (simp add: plant_trunk_def Let_def)

theorem plant_trunk_result_witness:
  "branches (plant_trunk 600 700 (init default_params)) =
     [\<lparr>b_id = 0, parent_id = None, start = (600, 700), b_end = (600, 520), depth = 0,
       b_length = 180, angle = 270, thickness = 20, color = ''#7c2d12''\<rparr>] \<and>
   next_id (plant_trunk 600 700 (init default_params)) = 1 \<and>
   current_depth (plant_trunk 600 700 (init default_params)) = 0 \<and>
   tree_center (plant_trunk 600 700 (init default_params)) = (600, 700)"
  using plant_trunk_result [of 600 700 "init default_params"]
  by (simp add: init_def default_params_def)

subsection \<open>Colour\<close>




text \<open>
  Claim C9. With a single well-formed palette entry \<open>c\<close>, \<open>get_branch_color\<close> returns the
  trunk colour at depth 0 and, at every depth from 1 on, a well-formed colour with the
  channels of \<open>c\<close>, that is, the colour \<open>c\<close>. As a string it is \<open>c\<close> itself when the depth is at
  least \<open>max_depth\<close> or \<open>c\<close> is written with lower-case digits; below \<open>max_depth\<close> it is
  written by \<open>interpolate_color\<close>, with lower-case digits. Double and real arithmetic agree
  here.
\<close>

theorem single_palette_color:
  assumes "leaf_colors ps = [c]" "hex_color c"
  shows "get_branch_color_double ps 0 = Inr (trunk_color ps) \<and>
    (0 < d \<longrightarrow>
       (\<exists>s. get_branch_color_double ps d = Inr s \<and> get_branch_color ps d = Inr s \<and>
            hex_color s \<and> channels s = channels c \<and>
            (max_depth ps \<le> int d \<or> lower_hex_color c \<longrightarrow> s = c)))"
proof -
  from assms have v: "valid_palette ps" "length (leaf_colors ps) < 2 ^ 53"
    by (simp_all add: valid_palette_def)
  define s where "s = (if max_depth ps \<le> int d then c else encode_rgb (channels c))"
  have "get_branch_color_double ps d = Inr s" "get_branch_color ps d = Inr s" if "0 < d"
    using get_branch_color_double_spec [OF v, of d] single_palette_double [OF assms that]
      get_branch_color_spec [OF v(1), of d] single_palette_spec [OF assms(1) that]
    by (simp_all add: s_def)
  moreover have "hex_color s" "channels s = channels c"
    using assms(2) channels_encode_rgb [OF assms(2)] hex_color_encode_rgb [OF assms(2)]
    by (simp_all add: s_def)
  moreover have "s = c" if "max_depth ps \<le> int d \<or> lower_hex_color c"
    using that encode_rgb_channels [of c] by (auto simp: s_def)
  moreover have "get_branch_color_double ps 0 = Inr (trunk_color ps)"
    by (simp add: get_branch_color_double_def)
  ultimately show ?thesis
    by blast
qed

theorem single_palette_color_witness:
  "leaf_colors upper_params = [''#22C55E''] \<and> hex_color ''#22C55E'' \<and>
   get_branch_color_double upper_params 1 = Inr ''#22c55e'' \<and>
   channels ''#22c55e'' = channels ''#22C55E'' \<and>
   get_branch_color_double upper_params 3 = Inr ''#22C55E''"
proof -
  have l: "leaf_colors upper_params = [''#22C55E'']" and m: "max_depth upper_params = 3"
    by (simp_all add: upper_params_def)
  have h: "hex_color ''#22C55E''"
    by (simp add: hex_color_def hex_val_def)
  from single_palette_color [OF l h, of 1]
  have "channels ''#22c55e'' = channels ''#22C55E''"
    unfolding upper_double by simp
  moreover from single_palette_color [OF l h, of 3]
  have "get_branch_color_double upper_params 3 = Inr ''#22C55E''"
    by (auto simp: m)
  ultimately show ?thesis
    using l h upper_double by simp
qed

subsection \<open>Rejected growth\<close>

text \<open>
  Claim C4. \<open>grow_one_level\<close> reports \<open>EmptyTreeError\<close> exactly when the branch collection is
  empty and, when it is not, reports \<open>MaxDepthReachedError\<close> exactly when the depth counter
  has reached \<open>max_depth\<close>. Whenever it reports anything (these two, or an exception of the
  colour computation), the whole engine state is as before the call.
\<close>

theorem grow_one_level_errors:
  "(fst (grow_one_level t g) = Some EmptyTreeError \<longleftrightarrow> branches t = []) \<and>
   (branches t \<noteq> [] \<longrightarrow>
      (fst (grow_one_level t g) = Some MaxDepthReachedError
         \<longleftrightarrow> max_depth (params t) \<le> int (current_depth t))) \<and>
   (fst (grow_one_level t g) \<noteq> None \<longrightarrow> fst (snd (grow_one_level t g)) = t)"
  by (cases t g rule: grow_one_level_cases) auto

theorem grow_one_level_errors_witness:
  "fst (grow_one_level (init default_params) (\<lambda>_. 1 / 2)) = Some EmptyTreeError \<and>
   fst (snd (grow_one_level (init default_params) (\<lambda>_. 1 / 2))) = init default_params \<and>
   fst (grow_one_level (planted\<lparr>current_depth := 8\<rparr>) (\<lambda>_. 1 / 2)) = Some MaxDepthReachedError \<and>
   fst (snd (grow_one_level (planted\<lparr>current_depth := 8\<rparr>) (\<lambda>_. 1 / 2)))
     = planted\<lparr>current_depth := 8\<rparr>"
  using grow_one_level_errors [of "init default_params" "\<lambda>_. 1 / 2"]
    grow_one_level_errors [of "planted\<lparr>current_depth := 8\<rparr>" "\<lambda>_. 1 / 2"]
  by (simp add: init_def planted_eval default_fields)

subsection \<open>Reachable states\<close>

text \<open>
  Claim C7. In every reachable state with a non-empty branch collection, exactly one branch
  has depth 0 and no parent, and it is the first one (the trunk); every other branch names
  as its parent a branch of the collection that is exactly one level less deep; and
  following the parent links from any branch, as many times as its depth, ends at the
  trunk.
\<close>

theorem trunk_and_parent_links:
  assumes "reachable t" "branches t \<noteq> []"
  shows "length (filter (\<lambda>b. depth b = 0 \<and> parent_id b = None) (branches t)) = 1 \<and>
    depth (hd (branches t)) = 0 \<and> parent_id (hd (branches t)) = None \<and>
    (\<forall>b\<in>set (tl (branches t)).
       \<exists>p\<in>set (branches t). parent_id b = Some (b_id p) \<and> depth b = Suc (depth p)) \<and>
    (\<forall>b\<in>set (branches t). climb (branches t) (depth b) b = Some (hd (branches t)))"
proof -
  from assms(1) have inv: "tree_inv t"
    by (rule reachable_tree_inv)
  have par: "\<exists>p\<in>set (branches t). parent_id b = Some (b_id p) \<and> depth b = Suc (depth p)"
    if "b \<in> set (tl (branches t))" for b
  proof -
    from that obtain k where k: "k < length (tl (branches t))" "tl (branches t) ! k = b"
      by (auto simp: in_set_conv_nth)
    then have s: "Suc k < length (branches t)" "0 < Suc k" "branches t ! Suc k = b"
      by (simp_all add: nth_tl)
    from tree_inv_parent [OF inv s(1,2)] obtain j where j: "j < Suc k"
      "parent_id (branches t ! Suc k) = Some j" "b_id (branches t ! j) = j"
      "depth (branches t ! Suc k) = Suc (depth (branches t ! j))"
      by blast
    from j(1) s(1) have "branches t ! j \<in> set (branches t)"
      by simp
    with j s(3) show ?thesis
      by (intro bexI [of _ "branches t ! j"]) simp_all
  qed
  have up: "climb (branches t) (depth b) b = Some (hd (branches t))"
    if "b \<in> set (branches t)" for b
  proof -
    from that obtain i where "i < length (branches t)" "branches t ! i = b"
      by (auto simp: in_set_conv_nth)
    with tree_inv_climb [OF inv this(1)] assms(2) show ?thesis
      by (simp add: hd_conv_nth)
  qed
  from tree_inv_one_trunk [OF inv assms(2)] tree_inv_trunk [OF inv assms(2)] par up
  show ?thesis
    by blast
qed

theorem trunk_and_parent_links_witness:
  "reachable example_tree \<and> branches example_tree \<noteq> [] \<and>
   map parent_id (branches example_tree) = [None, Some 0, Some 0] \<and>
   map depth (branches example_tree) = [0, 1, 1] \<and>
   length (filter (\<lambda>b. depth b = 0 \<and> parent_id b = None) (branches example_tree)) = 1 \<and>
   climb (branches example_tree) (depth (branches example_tree ! 2)) (branches example_tree ! 2)
     = Some (hd (branches example_tree))"
proof -
  have n: "length (branches example_tree) = 3"
    using arg_cong [OF example_ids, of length] by simp
  then have ne: "branches example_tree \<noteq> []" and m: "branches example_tree ! 2 \<in> set (branches example_tree)"
    by (auto intro: nth_mem)
  from trunk_and_parent_links [OF example_reachable ne] m example_parents example_depths
    example_reachable ne
  show ?thesis
    by blast
qed

text \<open>
  Claim C10. In every reachable state the identifier counter equals the number of branches,
  and the branch at each position of the collection has that position as its identifier.
\<close>

theorem ids_are_positions:
  assumes "reachable t"
  shows "next_id t = length (branches t) \<and>
    (\<forall>i<length (branches t). b_id (branches t ! i) = i)"
  using reachable_tree_inv [OF assms] tree_inv_ids [of t]
  by (simp add: tree_inv_def)

theorem ids_are_positions_witness:
  "reachable example_tree \<and> length (branches example_tree) = 3 \<and> next_id example_tree = 3 \<and>
   b_id (branches example_tree ! 2) = 2"
proof -
  have n: "length (branches example_tree) = 3"
    using arg_cong [OF example_ids, of length] by simp
  with ids_are_positions [OF example_reachable] example_reachable show ?thesis
    by simp
qed

subsection \<open>Growing a level\<close>

text \<open>
  Claim C1. After a call of \<open>grow_one_level\<close> that grew a level, the collection is the old
  one followed by two new branches per terminal branch. The new branch at position \<open>i\<close>
  belongs to the terminal branch \<open>p\<close> at position \<open>i div 2\<close>, with nominal offset
  \<open>- angle_variation\<close> for even \<open>i\<close> and \<open>+ angle_variation\<close> for odd \<open>i\<close>; with \<open>U\<close> and \<open>U2\<close> the
  samples number \<open>2 i\<close> and \<open>2 i + 1\<close> drawn by the call and \<open>R\<close> the randomness, its angle is
  \<open>angle p + offset * (1 + (U - 1/2) * 2 * R)\<close>, its length is
  \<open>b_length p * length_factor * (1 + (U2 - 1/2) * R)\<close>, it starts where \<open>p\<close> ends and it ends
  at \<open>b_end p + length * (cos, sin)\<close> of its angle in radians. That the samples are uniform
  and independent is a property of the generator and is not part of the model.
\<close>

theorem grow_one_level_children:
  assumes "fst (grow_one_level t g) = None"
  shows "\<exists>new. branches (fst (snd (grow_one_level t g))) = branches t @ new \<and>
    length new = 2 * length (terminal t) \<and>
    (\<forall>i<2 * length (terminal t).
       let p = terminal t ! (i div 2);
           offset = (if even i then - angle_variation (params t) else angle_variation (params t));
           U = g (2 * i);
           U2 = g (2 * i + 1);
           b = new ! i
       in angle b = angle p + offset * (1 + (U - 1 / 2) * 2 * randomness (params t)) \<and>
          b_length b =
            b_length p * length_factor (params t) * (1 + (U2 - 1 / 2) * randomness (params t)) \<and>
          start b = b_end p \<and>
          b_end b = (fst (b_end p) + b_length b * cos (angle b * pi / 180),
                     snd (b_end p) + b_length b * sin (angle b * pi / 180)))"
  using assms
proof (cases t g rule: grow_one_level_cases)
  case (grown c)
  let ?new = "children (params t) (current_depth t) c (terminal t) (next_id t) g"
  have "branches (fst (snd (grow_one_level t g))) = branches t @ ?new"
    by (simp add: grown grown_def)
  moreover have "length ?new = 2 * length (terminal t)"
    by (rule length_children)
  moreover have "\<forall>i<2 * length (terminal t).
       let p = terminal t ! (i div 2);
           offset = (if even i then - angle_variation (params t) else angle_variation (params t));
           U = g (2 * i);
           U2 = g (2 * i + 1);
           b = ?new ! i
       in angle b = angle p + offset * (1 + (U - 1 / 2) * 2 * randomness (params t)) \<and>
          b_length b =
            b_length p * length_factor (params t) * (1 + (U2 - 1 / 2) * randomness (params t)) \<and>
          start b = b_end p \<and>
          b_end b = (fst (b_end p) + b_length b * cos (angle b * pi / 180),
                     snd (b_end p) + b_length b * sin (angle b * pi / 180))"
    by (simp add: nth_children child_def Let_def)
  ultimately show ?thesis
    by blast
qed simp_all

theorem grow_one_level_children_witness:
  "fst (grow_one_level planted (\<lambda>_. 1 / 2)) = None \<and>
   (\<exists>new. branches example_tree = branches planted @ new \<and> length new = 2 \<and>
      angle (new ! 0) = 235 \<and> b_length (new ! 0) = 117 \<and> start (new ! 0) = (600, 520) \<and>
      angle (new ! 1) = 305 \<and> b_length (new ! 1) = 117 \<and> start (new ! 1) = (600, 520) \<and>
      b_end (new ! 1) = (600 + 117 * cos (305 * pi / 180), 520 + 117 * sin (305 * pi / 180)))"
proof -
  from grow_one_level_children [OF planted_grows] obtain new where
    n: "branches example_tree = branches planted @ new" "length new = 2 * length (terminal planted)"
    and c: "\<forall>i<2 * length (terminal planted).
       let p = terminal planted ! (i div 2);
           offset = (if even i then - angle_variation (params planted)
                     else angle_variation (params planted));
           U = 1 / 2;
           U2 = 1 / 2;
           b = new ! i
       in angle b = angle p + offset * (1 + (U - 1 / 2) * 2 * randomness (params planted)) \<and>
          b_length b =
            b_length p * length_factor (params planted)
              * (1 + (U2 - 1 / 2) * randomness (params planted)) \<and>
          start b = b_end p \<and>
          b_end b = (fst (b_end p) + b_length b * cos (angle b * pi / 180),
                     snd (b_end p) + b_length b * sin (angle b * pi / 180))"
    unfolding example_tree_def by blast
  have p: "params planted = default_params"
    by (simp add: planted_eval)
  from c [rule_format, of 0] c [rule_format, of 1]
  have "angle (new ! 0) = 235 \<and> b_length (new ! 0) = 117 \<and> start (new ! 0) = (600, 520) \<and>
      angle (new ! 1) = 305 \<and> b_length (new ! 1) = 117 \<and> start (new ! 1) = (600, 520) \<and>
      b_end (new ! 1) = (600 + 117 * cos (305 * pi / 180), 520 + 117 * sin (305 * pi / 180))"
    by (simp add: planted_terminal p default_fields Let_def)
  with n planted_grows show ?thesis
    by (simp add: planted_terminal)
qed

text \<open>
  Claim C2. Under a configuration with a non-empty palette of well-formed colours and
  \<open>max_depth = d\<close>, planting the trunk (from any state, at any point) and then calling
  \<open>grow_one_level\<close> \<open>d\<close> times never reports an error, and leaves the depth counter at \<open>d\<close>
  and a collection of \<open>2 ^ k\<close> branches of each depth \<open>k \<le> d\<close>, the sum of these numbers in
  all.
\<close>

theorem full_growth_count:
  assumes "valid_palette (params t)" "max_depth (params t) = int d"
  shows "fst (grow_times d (plant_trunk x y t) g) = None \<and>
    length (branches (fst (snd (grow_times d (plant_trunk x y t) g)))) = (\<Sum>k\<le>d. 2 ^ k) \<and>
    (\<forall>k\<le>d. length (filter (\<lambda>b. depth b = k)
        (branches (fst (snd (grow_times d (plant_trunk x y t) g))))) = 2 ^ k) \<and>
    current_depth (fst (snd (grow_times d (plant_trunk x y t) g))) = d"
proof -
  have p: "params (plant_trunk x y t) = params t"
    by (simp add: plant_trunk_def Let_def split: prod.splits)
  from grow_times_levels [of "plant_trunk x y t" 0 d g] assms level_inv_plant [of x y t]
  have "fst (grow_times d (plant_trunk x y t) g) = None"
    and "level_inv d (fst (snd (grow_times d (plant_trunk x y t) g)))"
    by (simp_all add: p)
  then show ?thesis
    by (simp add: level_inv_def sum_powers_of_two)
qed

theorem full_growth_count_witness:
  "valid_palette (default_params\<lparr>max_depth := 2\<rparr>) \<and>
   max_depth (default_params\<lparr>max_depth := 2\<rparr>) = 2 \<and>
   fst (grow_times 2 (plant_trunk 600 700 (init (default_params\<lparr>max_depth := 2\<rparr>)))
     (\<lambda>_. 1 / 2)) = None \<and>
   length (branches (fst (snd (grow_times 2
     (plant_trunk 600 700 (init (default_params\<lparr>max_depth := 2\<rparr>))) (\<lambda>_. 1 / 2))))) = 7 \<and>
   current_depth (fst (snd (grow_times 2
     (plant_trunk 600 700 (init (default_params\<lparr>max_depth := 2\<rparr>))) (\<lambda>_. 1 / 2)))) = 2"
proof -
  have v: "valid_palette (params (init (default_params\<lparr>max_depth := 2\<rparr>)))"
    using valid_default by (simp add: valid_palette_def init_def)
  have m: "max_depth (params (init (default_params\<lparr>max_depth := 2\<rparr>))) = int 2"
    by (simp add: init_def)
  from full_growth_count [OF v m, of 600 700 "\<lambda>_. 1 / 2"] v
  show ?thesis
    by (simp add: sum_powers_of_two init_def)
qed

subsection \<open>Determinism without randomness\<close>

text \<open>
  Claim C8. When \<open>randomness\<close> is 0, any sequence of \<open>plant_trunk\<close>, \<open>grow_one_level\<close>,
  \<open>grow_full_tree\<close> and \<open>reset_tree\<close> calls, run from the same state, returns whatever the
  random samples are, and leaves the same engine state (hence the same branch list) for
  any two sequences of samples.
\<close>

theorem no_randomness_deterministic:
  assumes "randomness (params t) = 0"
  shows "run cs t g \<noteq> None \<and> run cs t g' \<noteq> None \<and>
    map_option fst (run cs t g) = map_option fst (run cs t g')"
  using run_no_jitter [OF assms, of cs g g'] run_no_jitter [OF assms, of cs g' g]
  by simp

theorem no_randomness_deterministic_witness:
  "randomness (params (init (default_params\<lparr>randomness := 0\<rparr>))) = 0 \<and>
   run [PlantTrunk 600 700, GrowOneLevel, GrowFullTree]
     (init (default_params\<lparr>randomness := 0\<rparr>)) (\<lambda>_. 0) \<noteq> None \<and>
   map_option fst (run [PlantTrunk 600 700, GrowOneLevel, GrowFullTree]
     (init (default_params\<lparr>randomness := 0\<rparr>)) (\<lambda>_. 0)) =
   map_option fst (run [PlantTrunk 600 700, GrowOneLevel, GrowFullTree]
     (init (default_params\<lparr>randomness := 0\<rparr>)) (\<lambda>n. real n / (real n + 1)))"
proof -
  have z: "randomness (params (init (default_params\<lparr>randomness := 0\<rparr>))) = 0"
    by (simp add: init_def)
  from no_randomness_deterministic [OF z, of "[PlantTrunk 600 700, GrowOneLevel, GrowFullTree]"
      "\<lambda>_. 0" "\<lambda>n. real n / (real n + 1)"] z
  show ?thesis
    by blast
qed


end
